theory Spec2Isabelle
  imports Main "HOL-Library.Sublist" "HOL-Library.List_Lexorder"
begin

section \<open>Syntax trees and node paths\<close>

text \<open>
  The plugin \<^verbatim>\<open>src/hoistZodSchema.ts\<close> works on Babel syntax trees through Babel's
  \<^verbatim>\<open>NodePath\<close> interface. A node is its type tag (with the scalar attributes the plugin
  reads) and its child nodes in the order of Babel's visitor keys:
  \<^item> \<^verbatim>\<open>Program\<close>: the statements of \<^verbatim>\<open>body\<close>;
  \<^item> \<^verbatim>\<open>CallExpression\<close>: \<^verbatim>\<open>callee\<close>, then the \<^verbatim>\<open>arguments\<close>;
  \<^item> \<^verbatim>\<open>MemberExpression\<close>: \<^verbatim>\<open>object\<close>, \<^verbatim>\<open>property\<close>; the flag is \<^verbatim>\<open>computed\<close>;
  \<^item> \<^verbatim>\<open>ObjectProperty\<close>: \<^verbatim>\<open>key\<close>, \<^verbatim>\<open>value\<close>; the flag is \<^verbatim>\<open>computed\<close>;
  \<^item> \<^verbatim>\<open>VariableDeclaration\<close>: the declarators; the string is \<^verbatim>\<open>kind\<close>;
  \<^item> \<^verbatim>\<open>VariableDeclarator\<close>: \<^verbatim>\<open>id\<close>, \<^verbatim>\<open>init\<close>;
  \<^item> every other type: its children in visitor-key order; \<open>Other\<close> stands for all node
    types the plugin never tests for, with the type name and printed attributes.
\<close>

datatype ntype =
    Program
  | Identifier string
  | ThisExpression
  | CallExpression
  | MemberExpression bool
  | ObjectProperty bool
  | FunctionDeclaration
  | FunctionExpression
  | ArrowFunctionExpression
  | ObjectMethod
  | ClassMethod
  | ClassPrivateMethod
  | ImportSpecifier
  | ImportDefaultSpecifier
  | ImportNamespaceSpecifier
  | VariableDeclaration string
  | VariableDeclarator
  | Other string

datatype node = Node ntype "node list"

fun ntype_of :: "node \<Rightarrow> ntype" where
  "ntype_of (Node k cs) = k"

fun children :: "node \<Rightarrow> node list" where
  "children (Node k cs) = cs"

text \<open>
  A \<^verbatim>\<open>NodePath\<close> is the position of a node in the program: the child indices from the
  root. \<^verbatim>\<open>path.node\<close> is \<open>node_at\<close>, \<^verbatim>\<open>path.parentPath\<close> drops the last index, and
  \<^verbatim>\<open>path.replaceWith\<close> is \<open>replace_at\<close>.
\<close>

type_synonym path = "nat list"

fun node_at :: "node \<Rightarrow> path \<Rightarrow> node option" where
  "node_at n [] = Some n"
| "node_at (Node k cs) (i # p) = (if i < length cs then node_at (cs ! i) p else None)"

fun replace_at :: "node \<Rightarrow> path \<Rightarrow> node \<Rightarrow> node" where
  "replace_at n [] r = r"
| "replace_at (Node k cs) (i # p) r =
     (if i < length cs then Node k (cs[i := replace_at (cs ! i) p r]) else Node k cs)"

definition parentPath :: "path \<Rightarrow> path option" where
  "parentPath p = (if p = [] then None else Some (butlast p))"

definition type_at :: "node \<Rightarrow> path \<Rightarrow> ntype option" where
  "type_at t p = map_option ntype_of (node_at t p)"

definition isCallExpression :: "node \<Rightarrow> path \<Rightarrow> bool" where
  "isCallExpression t p = (type_at t p = Some CallExpression)"

definition isMemberExpression :: "node \<Rightarrow> path \<Rightarrow> bool" where
  "isMemberExpression t p =
     (case type_at t p of Some (MemberExpression c) \<Rightarrow> True | _ \<Rightarrow> False)"

text \<open>Babel's alias \<^verbatim>\<open>Function\<close>, tested by \<^verbatim>\<open>isFunction()\<close>.\<close>

fun isFunctionType :: "ntype \<Rightarrow> bool" where
  "isFunctionType FunctionDeclaration = True"
| "isFunctionType FunctionExpression = True"
| "isFunctionType ArrowFunctionExpression = True"
| "isFunctionType ObjectMethod = True"
| "isFunctionType ClassMethod = True"
| "isFunctionType ClassPrivateMethod = True"
| "isFunctionType _ = False"

definition isFunction :: "node \<Rightarrow> path \<Rightarrow> bool" where
  "isFunction t p = (case type_at t p of Some k \<Rightarrow> isFunctionType k | None \<Rightarrow> False)"

text \<open>
  The nodes below a node in the order Babel's \<^verbatim>\<open>traverse\<close> enters them: pre-order,
  children left to right. \<open>subpaths n\<close> starts with the node itself (the empty path).
\<close>

fun subpaths :: "node \<Rightarrow> path list"
  and subpaths_list :: "nat \<Rightarrow> node list \<Rightarrow> path list" where
  "subpaths (Node k cs) = [] # subpaths_list 0 cs"
| "subpaths_list i [] = []"
| "subpaths_list i (c # cs) = map ((#) i) (subpaths c) @ subpaths_list (Suc i) cs"

section \<open>Scope information and the other services of Babel\<close>

text \<open>
  Babel's scope analysis, printer and name generator are not part of the plugin; they are
  parameters of the model. A \<^verbatim>\<open>Binding\<close> has the scope that owns it (a scope is
  identified by the path of its block, so the program scope is the empty path), the path
  of the declaring node and that node's type. \<open>getBinding env p x\<close> is
  \<^verbatim>\<open>p.scope.getBinding(x)\<close>. \<open>sha256hex\<close> is the hex digest of Node's
  \<^verbatim>\<open>createHash('sha256')\<close>. \<open>uidBody env name used\<close> is what
  \<^verbatim>\<open>scope.generateUid(name)\<close> puts after the underscore every generated name starts
  with, when \<open>used\<close> are the names it has handed out so far.
\<close>

record binding =
  b_scope :: path
  b_path :: path
  b_type :: ntype

record env =
  getBinding :: "path \<Rightarrow> string \<Rightarrow> binding option"
  generate :: "node \<Rightarrow> string"
  sha256hex :: "string \<Rightarrow> string"
  uidBody :: "string \<Rightarrow> string list \<Rightarrow> string"

definition generateUidIdentifier :: "env \<Rightarrow> string list \<Rightarrow> string \<Rightarrow> string" where
  "generateUidIdentifier e used name = CHR ''_'' # uidBody e name used"

section \<open>The chain resolver\<close>

definition isZodIdentifier :: "node \<Rightarrow> bool" where
  "isZodIdentifier n = (ntype_of n = Identifier ''z'')"

fun getChainRoot :: "node \<Rightarrow> node" where
  "getChainRoot (Node CallExpression (callee # args)) = getChainRoot callee"
| "getChainRoot (Node (MemberExpression c) (obj # rest)) = getChainRoot obj"
| "getChainRoot n = n"

definition isZodCall :: "node \<Rightarrow> bool" where
  "isZodCall n = isZodIdentifier (getChainRoot n)"

text \<open>\<^verbatim>\<open>isZodCall(path.node)\<close> for the node at a path.\<close>

definition isZodCallAt :: "node \<Rightarrow> path \<Rightarrow> bool" where
  "isZodCallAt t p = (case node_at t p of Some n \<Rightarrow> isZodCall n | None \<Rightarrow> False)"

text \<open>
  \<^verbatim>\<open>getOutermostCall\<close>: while the parent is a member expression and the grandparent a
  call expression, move to the grandparent.
\<close>

function getOutermostCall :: "node \<Rightarrow> path \<Rightarrow> path" where
  "getOutermostCall t current =
     (if current \<noteq> [] \<and> isMemberExpression t (butlast current)
         \<and> butlast current \<noteq> [] \<and> isCallExpression t (butlast (butlast current))
      then getOutermostCall t (butlast (butlast current))
      else current)"
  by pat_completeness auto
termination
  by (relation "measure (\<lambda>(t, p). length p)") auto

declare getOutermostCall.simps [simp del]

section \<open>The nesting detector\<close>

text \<open>The loop of \<^verbatim>\<open>isNestedInZodCall\<close>, started at \<^verbatim>\<open>outerPath.parentPath\<close>.\<close>

function nestedLoop :: "node \<Rightarrow> path option \<Rightarrow> bool" where
  "nestedLoop t None = False"
| "nestedLoop t (Some current) =
     (if isCallExpression t current \<and> isZodCallAt t current then True
      else nestedLoop t (parentPath current))"
  by pat_completeness auto
termination
  by (relation "measure (\<lambda>(t, c). case c of None \<Rightarrow> 0 | Some p \<Rightarrow> Suc (length p))")
     (auto simp: parentPath_def)

declare nestedLoop.simps [simp del]

definition isNestedInZodCall :: "node \<Rightarrow> path \<Rightarrow> bool" where
  "isNestedInZodCall t outerPath = nestedLoop t (parentPath outerPath)"

text \<open>\<^verbatim>\<open>path.getFunctionParent()\<close>: the nearest strict ancestor that is a function.\<close>

function findFunction :: "node \<Rightarrow> path option \<Rightarrow> path option" where
  "findFunction t None = None"
| "findFunction t (Some current) =
     (if isFunction t current then Some current else findFunction t (parentPath current))"
  by pat_completeness auto
termination
  by (relation "measure (\<lambda>(t, c). case c of None \<Rightarrow> 0 | Some p \<Rightarrow> Suc (length p))")
     (auto simp: parentPath_def)

declare findFunction.simps [simp del]

definition getFunctionParent :: "node \<Rightarrow> path \<Rightarrow> path option" where
  "getFunctionParent t p = findFunction t (parentPath p)"

section \<open>The reference-validity checker\<close>

definition isGlobalZodReference :: "env \<Rightarrow> node \<Rightarrow> path \<Rightarrow> bool" where
  "isGlobalZodReference e t p =
     (case node_at t p of
        None \<Rightarrow> False
      | Some n \<Rightarrow>
          if \<not> isZodIdentifier (getChainRoot n) then False
          else (case getBinding e p ''z'' of
                  None \<Rightarrow> True
                | Some b \<Rightarrow> b_scope b = []))"

section \<open>The hoist-safety analyzer\<close>

text \<open>
  The state of the sub-traversal of \<^verbatim>\<open>canSafelyHoist\<close>: the variable \<^verbatim>\<open>canHoist\<close>,
  whether \<^verbatim>\<open>stop()\<close> was called, and (an observation, not a variable of the source) the
  identifiers whose binding was looked up, in order.
\<close>

record hstate =
  canHoist :: bool
  stopped :: bool
  resolved :: "path list"

definition isImportBinding :: "binding \<Rightarrow> bool" where
  "isImportBinding b =
     (b_type b = ImportSpecifier \<or> b_type b = ImportDefaultSpecifier
      \<or> b_type b = ImportNamespaceSpecifier)"

text \<open>
  The two tests that skip an identifier that is no variable reference: the
  \<^verbatim>\<open>property\<close> of a non-computed member expression (child 1), and the \<^verbatim>\<open>key\<close> of a
  non-computed object property (child 0).
\<close>

definition isPropertyName :: "node \<Rightarrow> path \<Rightarrow> bool" where
  "isPropertyName t idPath =
     (idPath \<noteq> [] \<and> type_at t (butlast idPath) = Some (MemberExpression False)
      \<and> last idPath = 1)"

definition isObjectKey :: "node \<Rightarrow> path \<Rightarrow> bool" where
  "isObjectKey t idPath =
     (idPath \<noteq> [] \<and> type_at t (butlast idPath) = Some (ObjectProperty False)
      \<and> last idPath = 0)"

text \<open>The \<^verbatim>\<open>Identifier\<close> handler, for the identifier \<open>name\<close> at \<open>idPath\<close>.\<close>

definition identifierVisitor ::
  "env \<Rightarrow> node \<Rightarrow> path \<Rightarrow> path \<Rightarrow> string \<Rightarrow> hstate \<Rightarrow> hstate" where
  "identifierVisitor e t p idPath name s =
     (if name = ''z'' then s
      else if isPropertyName t idPath then s
      else if isObjectKey t idPath then s
      else
        (let s1 = s\<lparr>resolved := resolved s @ [idPath]\<rparr> in
         case getBinding e idPath name of
           None \<Rightarrow> s1
         | Some b \<Rightarrow>
             if strict_prefix p (b_path b) then s1
             else if b_scope b = [] then
               (if isImportBinding b then s1
                else s1\<lparr>canHoist := False, stopped := True\<rparr>)
             else s1\<lparr>canHoist := False, stopped := True\<rparr>))"

text \<open>One step of the sub-traversal: nothing after \<^verbatim>\<open>stop()\<close>, else the handler of the
  node's type.\<close>

definition hoistStep :: "env \<Rightarrow> node \<Rightarrow> path \<Rightarrow> hstate \<Rightarrow> path \<Rightarrow> hstate" where
  "hoistStep e t p s q =
     (if stopped s then s
      else (case type_at t q of
              Some (Identifier name) \<Rightarrow> identifierVisitor e t p q name s
            | Some ThisExpression \<Rightarrow> s\<lparr>canHoist := False\<rparr>
            | _ \<Rightarrow> s))"

text \<open>\<^verbatim>\<open>path.traverse\<close> enters the strict descendants of \<open>p\<close> in pre-order.\<close>

definition descendants :: "node \<Rightarrow> path \<Rightarrow> path list" where
  "descendants t p =
     (case node_at t p of
        None \<Rightarrow> []
      | Some n \<Rightarrow> map ((@) p) (tl (subpaths n)))"

definition safetyTraversal :: "env \<Rightarrow> node \<Rightarrow> path \<Rightarrow> hstate" where
  "safetyTraversal e t p =
     foldl (hoistStep e t p) \<lparr>canHoist = True, stopped = False, resolved = []\<rparr>
       (descendants t p)"

definition canSafelyHoist :: "env \<Rightarrow> node \<Rightarrow> path \<Rightarrow> bool" where
  "canSafelyHoist e t p = canHoist (safetyTraversal e t p)"

section \<open>The visitor and the pass\<close>

text \<open>
  The state of one pass: the program being rewritten, the map \<^verbatim>\<open>hoistedSchemas\<close> (in
  insertion order), the queue \<^verbatim>\<open>schemasToHoist\<close>, the set \<^verbatim>\<open>processedNodes\<close> (a node is
  identified by its path) and the names \<^verbatim>\<open>generateUid\<close> has handed out.
\<close>

record pstate =
  prog :: node
  hoistedSchemas :: "(string \<times> string) list"
  schemasToHoist :: "(string \<times> node) list"
  processedNodes :: "path set"
  uids :: "string list"

definition generateHash :: "env \<Rightarrow> string \<Rightarrow> string" where
  "generateHash e code = take 8 (sha256hex e code)"

definition t_identifier :: "string \<Rightarrow> node" where
  "t_identifier name = Node (Identifier name) []"

text \<open>The last part of the \<^verbatim>\<open>CallExpression\<close> handler, once every filter has passed.\<close>

definition hoistAt :: "env \<Rightarrow> path \<Rightarrow> node \<Rightarrow> pstate \<Rightarrow> pstate" where
  "hoistAt e outerPath n st =
     (let code = generate e n in
      case map_of (hoistedSchemas st) code of
        Some existingId \<Rightarrow>
          st\<lparr>prog := replace_at (prog st) outerPath (t_identifier existingId)\<rparr>
      | None \<Rightarrow>
          (let hash = generateHash e code;
               ident = generateUidIdentifier e (uids st) (''schema_'' @ hash)
           in st\<lparr>prog := replace_at (prog st) outerPath (t_identifier ident),
                 hoistedSchemas := hoistedSchemas st @ [(code, ident)],
                 schemasToHoist := schemasToHoist st @ [(ident, n)],
                 uids := uids st @ [ident]\<rparr>))"

definition callExpressionVisitor :: "env \<Rightarrow> path \<Rightarrow> pstate \<Rightarrow> pstate" where
  "callExpressionVisitor e p st =
     (if \<not> isZodCallAt (prog st) p then st
      else
        (let outerPath = getOutermostCall (prog st) p in
         if outerPath \<in> processedNodes st then st
         else
           (let st1 = st\<lparr>processedNodes := insert outerPath (processedNodes st)\<rparr> in
            if isNestedInZodCall (prog st) outerPath then st1
            else if \<not> isGlobalZodReference e (prog st) outerPath then st1
            else if getFunctionParent (prog st) outerPath = None then st1
            else if \<not> canSafelyHoist e (prog st) outerPath then st1
            else (case node_at (prog st) outerPath of
                    None \<Rightarrow> st1
                  | Some n \<Rightarrow> hoistAt e outerPath n st1))))"

text \<open>
  \<^verbatim>\<open>programPath.traverse\<close> with the one handler: the paths of the program in pre-order;
  a path that is no longer in the tree (it lay below a replaced call) or is no call
  expression is passed over.
\<close>

definition visitPath :: "env \<Rightarrow> pstate \<Rightarrow> path \<Rightarrow> pstate" where
  "visitPath e st p = (if isCallExpression (prog st) p then callExpressionVisitor e p st else st)"

definition initialState :: "node \<Rightarrow> pstate" where
  "initialState t =
     \<lparr>prog = t, hoistedSchemas = [], schemasToHoist = [], processedNodes = {}, uids = []\<rparr>"

definition traverseProgram :: "env \<Rightarrow> node \<Rightarrow> pstate" where
  "traverseProgram e t = foldl (visitPath e) (initialState t) (subpaths t)"

definition variableDeclaration :: "string \<times> node \<Rightarrow> node" where
  "variableDeclaration d =
     Node (VariableDeclaration ''const'')
       [Node VariableDeclarator [t_identifier (fst d), snd d]]"

text \<open>The \<^verbatim>\<open>Program\<close> visitor of the plugin: the whole pass.\<close>

definition hoistZodSchema :: "env \<Rightarrow> node \<Rightarrow> node" where
  "hoistZodSchema e t =
     (if ntype_of t \<noteq> Program then t
      else
        (let st = traverseProgram e t in
         if schemasToHoist st \<noteq> []
         then Node Program (map variableDeclaration (schemasToHoist st) @ children (prog st))
         else prog st))"

section \<open>What a node does to the safety analysis\<close>

definition freshState :: hstate where
  "freshState = \<lparr>canHoist = True, stopped = False, resolved = []\<rparr>"

text \<open>
  A node of the candidate disqualifies it when its handler, run on a fresh state, clears
  \<^verbatim>\<open>canHoist\<close>; a reference is accepted when it does not.
\<close>

definition disqualifies :: "env \<Rightarrow> node \<Rightarrow> path \<Rightarrow> path \<Rightarrow> bool" where
  "disqualifies e t p q = (\<not> canHoist (hoistStep e t p freshState q))"

text \<open>The visitor left the program, the map and the queue as they were.\<close>

definition nothingHoisted :: "pstate \<Rightarrow> pstate \<Rightarrow> bool" where
  "nothingHoisted st st' =
     (prog st' = prog st \<and> hoistedSchemas st' = hoistedSchemas st
      \<and> schemasToHoist st' = schemasToHoist st \<and> uids st' = uids st)"

section \<open>The pass described on the input program\<close>

text \<open>
  A call of the input program is an accepted candidate when it passes every filter of the
  visitor, evaluated on the input program. Its canonical form is the printed text that
  the visitor uses as the key of \<^verbatim>\<open>hoistedSchemas\<close>.
\<close>

definition isAcceptedCandidate :: "env \<Rightarrow> node \<Rightarrow> path \<Rightarrow> bool" where
  "isAcceptedCandidate e t p =
     (isCallExpression t p \<and> isZodCallAt t p \<and> getOutermostCall t p = p
      \<and> \<not> isNestedInZodCall t p \<and> isGlobalZodReference e t p
      \<and> getFunctionParent t p \<noteq> None \<and> canSafelyHoist e t p)"

definition canonicalForm :: "env \<Rightarrow> node \<Rightarrow> path \<Rightarrow> string" where
  "canonicalForm e t p = (case node_at t p of Some n \<Rightarrow> generate e n | None \<Rightarrow> [])"

text \<open>
  \<open>withReferences r p n\<close> is the node \<open>n\<close>, which lies at path \<open>p\<close>, with every node
  whose path \<open>r\<close> maps to a name replaced by the identifier of that name.
\<close>

fun withReferences :: "(path \<Rightarrow> string option) \<Rightarrow> path \<Rightarrow> node \<Rightarrow> node"
  and withReferencesList ::
    "(path \<Rightarrow> string option) \<Rightarrow> path \<Rightarrow> nat \<Rightarrow> node list \<Rightarrow> node list" where
  "withReferences r p (Node k cs) =
     (case r p of
        Some name \<Rightarrow> t_identifier name
      | None \<Rightarrow> Node k (withReferencesList r p 0 cs))"
| "withReferencesList r p i [] = []"
| "withReferencesList r p i (c # cs) =
     withReferences r (p @ [i]) c # withReferencesList r p (Suc i) cs"

text \<open>The name that the map \<open>h\<close> gives to the accepted candidate at a path.\<close>

definition referenceOf ::
  "env \<Rightarrow> node \<Rightarrow> (string \<times> string) list \<Rightarrow> path \<Rightarrow> string option" where
  "referenceOf e t h p =
     (if isAcceptedCandidate e t p then map_of h (canonicalForm e t p) else None)"

text \<open>
  Where a node of the input lies in the output, when \<open>k\<close> declarations were put in front
  of the body.
\<close>

fun shiftPath :: "nat \<Rightarrow> path \<Rightarrow> path" where
  "shiftPath k [] = []"
| "shiftPath k (i # p) = (i + k) # p"

text \<open>The distinct elements of a list in the order of their first occurrence.\<close>

definition firstOccurrences :: "'a list \<Rightarrow> 'a list" where
  "firstOccurrences xs = rev (remdups (rev xs))"

text \<open>
  The invariant of the traversal. When the paths \<open>visited\<close> have been entered, the program
  is the input with the accepted candidates among them replaced by their references,
  every such candidate has its canonical form in the map, a visited call rooted at \<^verbatim>\<open>z\<close>
  that is its own outermost call and lies below no replaced candidate is in
  \<^verbatim>\<open>processedNodes\<close>, every processed node is an ancestor of a visited path or visited
  itself, the map and the queue hold the same entries in the order of first discovery,
  every queued initializer is an accepted candidate of the input, and no name is \<^verbatim>\<open>z\<close>.
\<close>

definition sitesOf ::
  "env \<Rightarrow> node \<Rightarrow> path set \<Rightarrow> (string \<times> string) list \<Rightarrow> path \<Rightarrow> string option" where
  "sitesOf e t D h a = (if a \<in> D then referenceOf e t h a else None)"

definition passInvariant :: "env \<Rightarrow> node \<Rightarrow> path list \<Rightarrow> pstate \<Rightarrow> bool" where
  "passInvariant e t visited st \<longleftrightarrow>
     prog st = withReferences (sitesOf e t (set visited) (hoistedSchemas st)) [] t
   \<and> (\<forall>a\<in>set visited. isAcceptedCandidate e t a
         \<longrightarrow> canonicalForm e t a \<in> fst ` set (hoistedSchemas st))
   \<and> (\<forall>q\<in>set visited.
         isCallExpression t q \<and> isZodCallAt t q \<and> getOutermostCall t q = q
         \<and> (\<forall>a\<in>set visited. isAcceptedCandidate e t a \<longrightarrow> \<not> strict_prefix a q)
         \<longrightarrow> q \<in> processedNodes st)
   \<and> (\<forall>q\<in>processedNodes st. \<exists>d\<in>set visited. prefix q d)
   \<and> hoistedSchemas st = map (\<lambda>d. (generate e (snd d), fst d)) (schemasToHoist st)
   \<and> map fst (hoistedSchemas st)
        = firstOccurrences (map (canonicalForm e t) (filter (isAcceptedCandidate e t) visited))
   \<and> uids st = map fst (schemasToHoist st)
   \<and> (\<forall>d\<in>set (schemasToHoist st).
         \<exists>a\<in>set visited. isAcceptedCandidate e t a \<and> node_at t a = Some (snd d))
   \<and> (\<forall>d\<in>set (schemasToHoist st). fst d \<noteq> ''z'')"

text \<open>
  What the \<^verbatim>\<open>Identifier\<close> handler reads of a binding, for a candidate at \<open>p\<close>: whether
  the declaring node lies below the candidate, whether the scope is the program scope,
  and whether an import specifier declares it.
\<close>

definition bindingVerdict :: "path \<Rightarrow> binding option \<Rightarrow> (bool \<times> bool \<times> bool) option" where
  "bindingVerdict p b =
     map_option (\<lambda>b. (strict_prefix p (b_path b), b_scope b = [], isImportBinding b)) b"

text \<open>
  Running the pass on its own output needs the scope information of the output. It agrees
  with that of the input when \<^verbatim>\<open>z\<close> at every node, and the name of every identifier,
  resolves in the output as in the input, for the nodes of the input that are found
  unchanged in the output; the paths of the bindings move with the body, by the \<open>k\<close>
  declarations put in front of it.
\<close>

definition shiftBinding :: "nat \<Rightarrow> binding \<Rightarrow> binding" where
  "shiftBinding k b = b\<lparr>b_scope := shiftPath k (b_scope b), b_path := shiftPath k (b_path b)\<rparr>"

definition scopesAgree :: "env \<Rightarrow> node \<Rightarrow> env \<Rightarrow> node \<Rightarrow> nat \<Rightarrow> bool" where
  "scopesAgree e t e' t' k =
     (\<forall>p name.
        p \<noteq> [] \<and> node_at t p \<noteq> None \<and> node_at t' (shiftPath k p) = node_at t p
        \<and> (name = ''z'' \<or> type_at t p = Some (Identifier name))
        \<longrightarrow> getBinding e' (shiftPath k p) name
              = map_option (shiftBinding k) (getBinding e p name))"

text \<open>
  Scope information that agrees with that of the input always exists: the bindings of the
  input, carried along with the body.
\<close>

definition carriedBindings ::
  "nat \<Rightarrow> (path \<Rightarrow> string \<Rightarrow> binding option) \<Rightarrow> path \<Rightarrow> string \<Rightarrow> binding option" where
  "carriedBindings k g p name =
     (case p of
        [] \<Rightarrow> None
      | i # r \<Rightarrow> if k \<le> i then map_option (shiftBinding k) (g ((i - k) # r) name) else None)"

text \<open>
  The contract of \<^verbatim>\<open>scope.generateUid\<close>: it never returns a name it has handed out
  before.
\<close>

definition freshNames :: "env \<Rightarrow> bool" where
  "freshNames e = (\<forall>name used. generateUidIdentifier e used name \<notin> set used)"

text \<open>The name that a declaration built by \<open>variableDeclaration\<close> declares.\<close>

fun declaredName :: "node \<Rightarrow> string option" where
  "declaredName (Node (VariableDeclaration k) [Node VariableDeclarator (Node (Identifier x) [] # rest)])
     = Some x"
| "declaredName n = None"

section \<open>Example programs\<close>

text \<open>
  A printer, a digest and a name generator to run the pass on examples: the printer writes
  the type and the children of every node, the digest is the identity, and a generated
  name is made longer than every name handed out before.
\<close>

fun typeName :: "ntype \<Rightarrow> string" where
  "typeName (Identifier x) = x"
| "typeName ThisExpression = ''this''"
| "typeName CallExpression = ''call''"
| "typeName (MemberExpression c) = (if c then ''index'' else ''member'')"
| "typeName (ObjectProperty c) = (if c then ''computedProperty'' else ''property'')"
| "typeName (VariableDeclaration k) = k"
| "typeName (Other x) = x"
| "typeName _ = ''node''"

fun printNode :: "node \<Rightarrow> string"
  and printNodes :: "node list \<Rightarrow> string" where
  "printNode (Node k cs) = typeName k @ ''('' @ printNodes cs @ '')''"
| "printNodes [] = []"
| "printNodes (c # cs) = printNode c @ '','' @ printNodes cs"

definition exampleEnv :: "(path \<Rightarrow> string \<Rightarrow> binding option) \<Rightarrow> env" where
  "exampleEnv bindings =
     \<lparr>getBinding = bindings, generate = printNode, sha256hex = (\<lambda>code. code),
      uidBody = (\<lambda>name used. name @ concat used)\<rparr>"

definition noBindings :: "path \<Rightarrow> string \<Rightarrow> binding option" where
  "noBindings p x = None"

definition zodCall :: "string \<Rightarrow> node list \<Rightarrow> node" where
  "zodCall method args =
     Node CallExpression
       (Node (MemberExpression False) [t_identifier ''z'', t_identifier method] # args)"

definition methodCall :: "node \<Rightarrow> string \<Rightarrow> node list \<Rightarrow> node" where
  "methodCall obj name args =
     Node CallExpression (Node (MemberExpression False) [obj, t_identifier name] # args)"

definition functionDeclaration :: "string \<Rightarrow> node list \<Rightarrow> node list \<Rightarrow> node" where
  "functionDeclaration name params body =
     Node FunctionDeclaration
       (t_identifier name # params @ [Node (Other ''BlockStatement'') body])"

definition returnStatement :: "node \<Rightarrow> node" where
  "returnStatement x = Node (Other ''ReturnStatement'') [x]"

text \<open>\<^verbatim>\<open>function getSchema(minLength) { return z.string().min(minLength); }\<close>\<close>

definition localProgram :: node where
  "localProgram =
     Node Program
       [functionDeclaration ''getSchema'' [t_identifier ''minLength'']
          [returnStatement
             (methodCall (zodCall ''string'' []) ''min'' [t_identifier ''minLength''])]]"

definition localBindings :: "path \<Rightarrow> string \<Rightarrow> binding option" where
  "localBindings p x =
     (if x = ''minLength'' \<and> prefix [0] p
      then Some \<lparr>b_scope = [0], b_path = [0, 1], b_type = Identifier ''minLength''\<rparr>
      else if x = ''getSchema''
      then Some \<lparr>b_scope = [], b_path = [0], b_type = FunctionDeclaration\<rparr>
      else None)"

text \<open>
  \<^verbatim>\<open>import { myRefine } from './utils';
  function getSchema() { return z.string().refine(myRefine); }\<close>
\<close>

definition importProgram :: node where
  "importProgram =
     Node Program
       [Node (Other ''ImportDeclaration'')
          [Node ImportSpecifier [t_identifier ''myRefine'', t_identifier ''myRefine''],
           Node (Other ''StringLiteral ./utils'') []],
        functionDeclaration ''getSchema'' []
          [returnStatement
             (methodCall (zodCall ''string'' []) ''refine'' [t_identifier ''myRefine''])]]"

definition importBindings :: "path \<Rightarrow> string \<Rightarrow> binding option" where
  "importBindings p x =
     (if x = ''myRefine''
      then Some \<lparr>b_scope = [], b_path = [0, 0], b_type = ImportSpecifier\<rparr>
      else if x = ''getSchema''
      then Some \<lparr>b_scope = [], b_path = [1], b_type = FunctionDeclaration\<rparr>
      else None)"

text \<open>
  \<^verbatim>\<open>function f(x) { return z.a(this, x); }\<close>: the receiver comes before a reference to
  the parameter.
\<close>

definition thisProgram :: node where
  "thisProgram =
     Node Program
       [functionDeclaration ''f'' [t_identifier ''x'']
          [returnStatement (zodCall ''a'' [Node ThisExpression [], t_identifier ''x''])]]"

definition thisBindings :: "path \<Rightarrow> string \<Rightarrow> binding option" where
  "thisBindings p x =
     (if x = ''x'' \<and> prefix [0] p
      then Some \<lparr>b_scope = [0], b_path = [0, 1], b_type = Identifier ''x''\<rparr>
      else if x = ''f''
      then Some \<lparr>b_scope = [], b_path = [0], b_type = FunctionDeclaration\<rparr>
      else None)"

text \<open>
  \<^verbatim>\<open>function f() { return a[z.string()](); }\<close>: the call \<^verbatim>\<open>z.string()\<close> is the computed
  property of the member expression that the outer call calls.
\<close>

definition computedProgram :: node where
  "computedProgram =
     Node Program
       [functionDeclaration ''f'' []
          [returnStatement
             (Node CallExpression
                [Node (MemberExpression True) [t_identifier ''a'', zodCall ''string'' []]])]]"

text \<open>\<^verbatim>\<open>function f() { return a[z.string()]; }\<close>: the same without the outer call.\<close>

definition computedProgram2 :: node where
  "computedProgram2 =
     Node Program
       [functionDeclaration ''f'' []
          [returnStatement
             (Node (MemberExpression True) [t_identifier ''a'', zodCall ''string'' []])]]"

text \<open>\<^verbatim>\<open>function getSchema() { return z.enum(allowedTypes); }\<close>, nothing declared.\<close>

definition enumProgram :: node where
  "enumProgram =
     Node Program
       [functionDeclaration ''getSchema'' []
          [returnStatement (zodCall ''enum'' [t_identifier ''allowedTypes''])]]"

text \<open>\<^verbatim>\<open>function makeSchema(z) { return z.string(); }\<close>\<close>

definition shadowProgram :: node where
  "shadowProgram =
     Node Program
       [functionDeclaration ''makeSchema'' [t_identifier ''z'']
          [returnStatement (zodCall ''string'' [])]]"

definition shadowBindings :: "path \<Rightarrow> string \<Rightarrow> binding option" where
  "shadowBindings p x =
     (if x = ''z'' \<and> prefix [0] p
      then Some \<lparr>b_scope = [0], b_path = [0, 1], b_type = Identifier ''z''\<rparr>
      else if x = ''makeSchema''
      then Some \<lparr>b_scope = [], b_path = [0], b_type = FunctionDeclaration\<rparr>
      else None)"

text \<open>
  \<^verbatim>\<open>const schema = z.string();
  function f() { return z.string(); }\<close>
\<close>

definition topLevelProgram :: node where
  "topLevelProgram =
     Node Program
       [Node (VariableDeclaration ''const'')
          [Node VariableDeclarator [t_identifier ''schema'', zodCall ''string'' []]],
        functionDeclaration ''f'' [] [returnStatement (zodCall ''string'' [])]]"

definition topLevelBindings :: "path \<Rightarrow> string \<Rightarrow> binding option" where
  "topLevelBindings p x =
     (if x = ''schema''
      then Some \<lparr>b_scope = [], b_path = [0, 0], b_type = VariableDeclarator\<rparr>
      else if x = ''f''
      then Some \<lparr>b_scope = [], b_path = [1], b_type = FunctionDeclaration\<rparr>
      else None)"

text \<open>
  \<^verbatim>\<open>function a(n) { return z.string().min(n); }
  function b() { return z.string(); }
  function c() { return z.string(); }\<close>
\<close>

definition mixedProgram :: node where
  "mixedProgram =
     Node Program
       [functionDeclaration ''a'' [t_identifier ''n'']
          [returnStatement (methodCall (zodCall ''string'' []) ''min'' [t_identifier ''n''])],
        functionDeclaration ''b'' [] [returnStatement (zodCall ''string'' [])],
        functionDeclaration ''c'' [] [returnStatement (zodCall ''string'' [])]]"

definition mixedBindings :: "path \<Rightarrow> string \<Rightarrow> binding option" where
  "mixedBindings p x =
     (if x = ''n'' \<and> prefix [0] p
      then Some \<lparr>b_scope = [0], b_path = [0, 1], b_type = Identifier ''n''\<rparr>
      else None)"

text \<open>
  The bindings of the output of the pass on the program above: the declaration of the
  hoisted schema comes first, and the functions have moved down by one statement.
\<close>

definition mixedBindingsAfter :: "path \<Rightarrow> string \<Rightarrow> binding option" where
  "mixedBindingsAfter p x =
     (if x = ''n'' \<and> prefix [1] p
      then Some \<lparr>b_scope = [1], b_path = [1, 1], b_type = Identifier ''n''\<rparr>
      else if x = ''_schema_call(mem''
      then Some \<lparr>b_scope = [], b_path = [0, 0], b_type = VariableDeclarator\<rparr>
      else None)"

section \<open>The safety analysis\<close>

lemma identifierVisitor_canHoist:
  "canHoist (identifierVisitor e t p q name s)
     = (canHoist s \<and> canHoist (identifierVisitor e t p q name freshState))"
  by (simp add: identifierVisitor_def freshState_def Let_def split: option.splits)

lemma identifierVisitor_stopped:
  "stopped (identifierVisitor e t p q name s) \<Longrightarrow> \<not> stopped s \<Longrightarrow>
     \<not> canHoist (identifierVisitor e t p q name s)"
  by (auto simp: identifierVisitor_def Let_def split: option.splits if_splits)

lemma hoistStep_canHoist:
  "\<not> stopped s \<Longrightarrow>
     canHoist (hoistStep e t p s q) = (canHoist s \<and> \<not> disqualifies e t p q)"
  using identifierVisitor_canHoist [of e t p q _ s]
  by (auto simp: hoistStep_def disqualifies_def freshState_def
      split: option.splits ntype.splits)

lemma hoistStep_stopped: "stopped s \<Longrightarrow> hoistStep e t p s q = s"
  by (simp add: hoistStep_def)

lemma hoistStep_inv:
  "(stopped s \<longrightarrow> \<not> canHoist s) \<Longrightarrow>
     (stopped (hoistStep e t p s q) \<longrightarrow> \<not> canHoist (hoistStep e t p s q))"
  by (cases "stopped s")
     (auto simp: hoistStep_def dest: identifierVisitor_stopped split: option.splits ntype.splits)

lemma foldl_hoistStep_canHoist:
  "(stopped s \<longrightarrow> \<not> canHoist s) \<Longrightarrow>
     canHoist (foldl (hoistStep e t p) s qs)
       = (canHoist s \<and> (\<forall>q\<in>set qs. \<not> disqualifies e t p q))"
proof (induction qs arbitrary: s)
  case Nil
  then show ?case by simp
next
  case (Cons q qs)
  show ?case
  proof (cases "stopped s")
    case True
    with Cons.prems have "\<not> canHoist s" by simp
    moreover have "hoistStep e t p s q = s" using True by (rule hoistStep_stopped)
    ultimately show ?thesis using Cons.IH [of s] Cons.prems by simp
  next
    case False
    have "canHoist (foldl (hoistStep e t p) (hoistStep e t p s q) qs)
        = (canHoist (hoistStep e t p s q) \<and> (\<forall>q\<in>set qs. \<not> disqualifies e t p q))"
      by (rule Cons.IH) (rule hoistStep_inv [OF Cons.prems])
    then show ?thesis using False by (auto simp: hoistStep_canHoist)
  qed
qed

lemma canSafelyHoist_iff:
  "canSafelyHoist e t p = (\<forall>q\<in>set (descendants t p). \<not> disqualifies e t p q)"
  by (simp add: canSafelyHoist_def safetyTraversal_def foldl_hoistStep_canHoist freshState_def)

lemma disqualifies_bound:
  assumes "type_at t q = Some (Identifier name)"
    and "name \<noteq> ''z''" and "\<not> isPropertyName t q" and "\<not> isObjectKey t q"
    and "getBinding e q name = Some b"
  shows "(\<not> disqualifies e t p q)
           = (strict_prefix p (b_path b) \<or> (b_scope b = [] \<and> isImportBinding b))"
  using assms
  by (simp add: disqualifies_def hoistStep_def identifierVisitor_def freshState_def Let_def)

text \<open>
  A use of \<^verbatim>\<open>this\<close> below a candidate makes it unsafe. Once the traversal has stopped,
  no handler runs; a rejecting \<^verbatim>\<open>Identifier\<close> handler stops it.
\<close>

lemma this_unsafe:
  assumes "q \<in> set (descendants t p)" and "type_at t q = Some ThisExpression"
  shows "\<not> canSafelyHoist e t p"
proof -
  have "disqualifies e t p q"
    using assms(2) by (simp add: disqualifies_def hoistStep_def freshState_def)
  with assms(1) show ?thesis by (auto simp: canSafelyHoist_iff)
qed

lemma foldl_hoistStep_stopped:
  "stopped s \<Longrightarrow> foldl (hoistStep e t p) s qs = s"
  by (induction qs) (simp_all add: hoistStep_stopped)

lemma identifier_rejection_stops:
  assumes "type_at t q = Some (Identifier name)" and "\<not> stopped s" and "canHoist s"
    and "\<not> canHoist (hoistStep e t p s q)"
  shows "stopped (hoistStep e t p s q)"
  using assms
  by (auto simp: hoistStep_def identifierVisitor_def Let_def split: option.splits if_splits)

text \<open>The visitor hoists only after every filter has passed.\<close>

lemma visitor_filters:
  assumes "\<not> nothingHoisted st (callExpressionVisitor e c st)"
  shows "isZodCallAt (prog st) c
       \<and> getOutermostCall (prog st) c \<notin> processedNodes st
       \<and> \<not> isNestedInZodCall (prog st) (getOutermostCall (prog st) c)
       \<and> isGlobalZodReference e (prog st) (getOutermostCall (prog st) c)
       \<and> getFunctionParent (prog st) (getOutermostCall (prog st) c) \<noteq> None
       \<and> canSafelyHoist e (prog st) (getOutermostCall (prog st) c)"
  using assms
  by (auto simp: callExpressionVisitor_def nothingHoisted_def Let_def
      split: if_splits option.splits)

section \<open>Trees, paths and the traversal order\<close>

subsection \<open>Paths of a tree\<close>

lemma node_at_append:
  "node_at t (p @ q) = (case node_at t p of None \<Rightarrow> None | Some n \<Rightarrow> node_at n q)"
proof (induction p arbitrary: t)
  case Nil
  show ?case by simp
next
  case (Cons i p)
  show ?case by (cases t) (simp add: Cons.IH)
qed

lemma node_at_prefix:
  "prefix p q \<Longrightarrow> node_at t q \<noteq> None \<Longrightarrow> node_at t p \<noteq> None"
  by (auto simp: prefix_def node_at_append split: option.splits)

lemma set_subpaths:
  "set (subpaths n) = {p. node_at n p \<noteq> None}"
  "set (subpaths_list i cs) = {(i + j) # q | j q. j < length cs \<and> node_at (cs ! j) q \<noteq> None}"
proof (induction n and i cs rule: subpaths_subpaths_list.induct)
  case (1 k cs)
  show ?case
  proof (rule set_eqI)
    fix p
    show "p \<in> set (subpaths (Node k cs)) \<longleftrightarrow> p \<in> {p. node_at (Node k cs) p \<noteq> None}"
      by (cases p) (auto simp: 1)
  qed
next
  case (2 i)
  show ?case by simp
next
  case (3 i c cs)
  show ?case
  proof (rule set_eqI)
    fix p
    have "(\<exists>j q. p = (i + j) # q \<and> j < Suc (length cs) \<and> node_at ((c # cs) ! j) q \<noteq> None)
       \<longleftrightarrow> (\<exists>q. p = i # q \<and> node_at c q \<noteq> None)
         \<or> (\<exists>j q. p = (Suc i + j) # q \<and> j < length cs \<and> node_at (cs ! j) q \<noteq> None)"
      (is "?L \<longleftrightarrow> ?A \<or> ?B")
    proof
      assume ?L
      then obtain j q where *: "p = (i + j) # q" "j < Suc (length cs)"
        "node_at ((c # cs) ! j) q \<noteq> None" by blast
      show "?A \<or> ?B"
      proof (cases j)
        case 0
        with * show ?thesis by simp
      next
        case (Suc j')
        with * have "p = (Suc i + j') # q \<and> j' < length cs \<and> node_at (cs ! j') q \<noteq> None"
          by simp
        then show ?thesis by blast
      qed
    next
      assume "?A \<or> ?B"
      then show ?L
      proof
        assume ?A
        then obtain q where "p = (i + 0) # q \<and> 0 < Suc (length cs) \<and> node_at ((c # cs) ! 0) q \<noteq> None"
          by auto
        then show ?L by blast
      next
        assume ?B
        then obtain j q where "p = (i + Suc j) # q \<and> Suc j < Suc (length cs)
            \<and> node_at ((c # cs) ! Suc j) q \<noteq> None" by auto
        then show ?L by blast
      qed
    qed
    then show "p \<in> set (subpaths_list i (c # cs))
       \<longleftrightarrow> p \<in> {(i + j) # q | j q. j < length (c # cs) \<and> node_at ((c # cs) ! j) q \<noteq> None}"
      by (auto simp: 3)
  qed
qed

lemma sorted_subpaths:
  "sorted_wrt (<) (subpaths n)"
  "sorted_wrt (<) (subpaths_list i cs)"
proof (induction n and i cs rule: subpaths_subpaths_list.induct)
  case (1 k cs)
  have "\<forall>p \<in> set (subpaths_list 0 cs). [] < p"
    by (auto simp: set_subpaths)
  with 1 show ?case by simp
next
  case (2 i)
  show ?case by simp
next
  case (3 i c cs)
  have "sorted_wrt (<) (map ((#) i) (subpaths c))"
    using 3(1) by (simp add: sorted_wrt_map)
  moreover have "\<forall>x\<in>set (map ((#) i) (subpaths c)). \<forall>y\<in>set (subpaths_list (Suc i) cs). x < y"
    by (auto simp: set_subpaths)
  ultimately show ?case using 3(2) by (simp add: sorted_wrt_append)
qed

lemma le_append_lex: "(p::nat list) \<le> p @ r"
  by (induction p) simp_all

lemma prefix_le_lex: "prefix p q \<Longrightarrow> (p::nat list) \<le> q"
  by (auto simp: prefix_def le_append_lex)

text \<open>In the traversal order no node comes before one of its ancestors.\<close>

lemma subpaths_before:
  assumes "subpaths t = done @ c # rest" and "d \<in> set done"
  shows "\<not> prefix c d"
proof
  assume "prefix c d"
  then have "c \<le> d" by (rule prefix_le_lex)
  moreover have "d < c"
    using sorted_subpaths(1) [of t] assms by (simp add: sorted_wrt_append)
  ultimately show False by simp
qed

lemma subpaths_ancestor_done:
  assumes "subpaths t = done @ c # rest" and "strict_prefix a c"
  shows "a \<in> set done"
proof -
  have "c \<in> set (subpaths t)" using assms(1) by simp
  then have "node_at t c \<noteq> None" by (simp add: set_subpaths)
  with assms(2) have "node_at t a \<noteq> None"
    using node_at_prefix [of a c t] by (simp add: strict_prefix_def)
  then have "a \<in> set (subpaths t)" by (simp add: set_subpaths)
  moreover have "a \<noteq> c" using assms(2) by auto
  moreover have "a \<notin> set rest"
  proof
    assume "a \<in> set rest"
    then have "c < a" using sorted_subpaths(1) [of t] assms(1) by (simp add: sorted_wrt_append)
    moreover have "a \<le> c" using assms(2) by (auto intro: prefix_le_lex simp: strict_prefix_def)
    ultimately show False by simp
  qed
  ultimately show ?thesis using assms(1) by auto
qed

section \<open>Programs with references\<close>

subsection \<open>Replacing nodes by references\<close>

lemma withReferencesList_length [simp]:
  "length (withReferencesList r p i cs) = length cs"
  by (induction cs arbitrary: i) simp_all

lemma withReferencesList_nth:
  "j < length cs \<Longrightarrow>
     withReferencesList r p i cs ! j = withReferences r (p @ [i + j]) (cs ! j)"
proof (induction cs arbitrary: i j)
  case Nil
  then show ?case by simp
next
  case (Cons c cs)
  show ?case
  proof (cases j)
    case 0
    then show ?thesis by simp
  next
    case (Suc j')
    with Cons.prems have "j' < length cs" by simp
    from Cons.IH [OF this, of "Suc i"] Suc show ?thesis by simp
  qed
qed

lemma withReferences_cong:
  "(\<forall>q. r (p @ q) = r' (p @ q)) \<Longrightarrow> withReferences r p n = withReferences r' p n"
  "(\<forall>q. r (p @ q) = r' (p @ q)) \<Longrightarrow> withReferencesList r p i cs = withReferencesList r' p i cs"
proof (induction r p n and r p i cs rule: withReferences_withReferencesList.induct)
  case (1 r p k cs)
  from 1(2) have "r p = r' p" by (metis append_Nil2)
  moreover have "r p = None \<Longrightarrow> withReferencesList r p 0 cs = withReferencesList r' p 0 cs"
    using 1 by simp
  ultimately show ?case by (simp split: option.splits)
next
  case (2 r p i)
  show ?case by simp
next
  case (3 r p i c cs)
  have "\<forall>q. r ((p @ [i]) @ q) = r' ((p @ [i]) @ q)" using 3(3) by simp
  then have "withReferences r (p @ [i]) c = withReferences r' (p @ [i]) c" by (rule 3(1))
  moreover have "withReferencesList r p (Suc i) cs = withReferencesList r' p (Suc i) cs"
    using 3(3) by (rule 3(2))
  ultimately show ?case by simp
qed

lemma withReferences_id:
  "(\<forall>q. r (p @ q) = None) \<Longrightarrow> withReferences r p n = n"
  "(\<forall>q. r (p @ q) = None) \<Longrightarrow> withReferencesList r p i cs = cs"
proof (induction r p n and r p i cs rule: withReferences_withReferencesList.induct)
  case (1 r p k cs)
  from 1(2) have "r p = None" by (metis append_Nil2)
  then show ?case using 1 by simp
next
  case (2 r p i)
  show ?case by simp
next
  case (3 r p i c cs)
  have "\<forall>q. r ((p @ [i]) @ q) = None" using 3(3) by simp
  then have "withReferences r (p @ [i]) c = c" by (rule 3(1))
  moreover have "withReferencesList r p (Suc i) cs = cs" using 3(3) by (rule 3(2))
  ultimately show ?case by simp
qed

lemma withReferences_type:
  "r p = None \<Longrightarrow> ntype_of (withReferences r p n) = ntype_of n"
  by (cases n) simp

lemma node_at_identifier: "node_at (t_identifier x) (i # q) = None"
  by (simp add: t_identifier_def)

lemma withReferences_node_at:
  "(\<forall>q'. strict_prefix q' q \<longrightarrow> r (p @ q') = None) \<Longrightarrow>
     node_at (withReferences r p n) q = map_option (withReferences r (p @ q)) (node_at n q)"
proof (induction q arbitrary: p n)
  case Nil
  show ?case by simp
next
  case (Cons i q)
  obtain k cs where n: "n = Node k cs" by (cases n)
  have rp: "r p = None" using Cons.prems [rule_format, of "[]"] by simp
  have rest: "\<forall>q'. strict_prefix q' q \<longrightarrow> r ((p @ [i]) @ q') = None"
  proof (intro allI impI)
    fix q' assume "strict_prefix q' q"
    then have "strict_prefix (i # q') (i # q)" by simp
    from Cons.prems [rule_format, OF this] show "r ((p @ [i]) @ q') = None" by simp
  qed
  show ?case
    using Cons.IH [OF rest, of "cs ! i"] rp
    by (simp add: n withReferencesList_nth)
qed

lemma withReferences_node_at_below:
  "strict_prefix q' q \<Longrightarrow> r (p @ q') \<noteq> None \<Longrightarrow> node_at (withReferences r p n) q = None"
proof (induction q arbitrary: p n q')
  case Nil
  then show ?case by simp
next
  case (Cons i q)
  obtain k cs where n: "n = Node k cs" by (cases n)
  show ?case
  proof (cases "r p")
    case (Some x)
    then show ?thesis by (simp add: n node_at_identifier)
  next
    case None
    with Cons.prems obtain q1 where q': "q' = i # q1" and sp: "strict_prefix q1 q"
      by (cases q') auto
    have "r ((p @ [i]) @ q1) \<noteq> None" using Cons.prems(2) q' by simp
    from Cons.IH [OF sp this] None show ?thesis
      by (simp add: n withReferencesList_nth)
  qed
qed

lemma withReferences_replace:
  "node_at n q \<noteq> None \<Longrightarrow> (\<forall>q'. strict_prefix q' q \<longrightarrow> r (p @ q') = None) \<Longrightarrow>
     replace_at (withReferences r p n) q (t_identifier x)
       = withReferences (r(p @ q \<mapsto> x)) p n"
proof (induction q arbitrary: p n)
  case Nil
  show ?case by (cases n) simp
next
  case (Cons i q)
  obtain k cs where n: "n = Node k cs" by (cases n)
  define r' where "r' = r(p @ i # q \<mapsto> x)"
  have rp: "r p = None" using Cons.prems(2) [rule_format, of "[]"] by simp
  then have rp': "r' p = None" by (simp add: r'_def)
  have i: "i < length cs" and sub: "node_at (cs ! i) q \<noteq> None"
    using Cons.prems(1) by (auto simp: n split: if_splits)
  have rest: "\<forall>q'. strict_prefix q' q \<longrightarrow> r ((p @ [i]) @ q') = None"
  proof (intro allI impI)
    fix q' assume "strict_prefix q' q"
    then have "strict_prefix (i # q') (i # q)" by simp
    from Cons.prems(2) [rule_format, OF this] show "r ((p @ [i]) @ q') = None" by simp
  qed
  have e: "(p @ [i]) @ q = p @ i # q" by simp
  have ih: "replace_at (withReferences r (p @ [i]) (cs ! i)) q (t_identifier x)
      = withReferences r' (p @ [i]) (cs ! i)"
    using Cons.IH [OF sub rest] unfolding e r'_def [symmetric] .
  have "(withReferencesList r p 0 cs)[i := withReferences r' (p @ [i]) (cs ! i)]
      = withReferencesList r' p 0 cs"
  proof (rule nth_equalityI)
    show "length ((withReferencesList r p 0 cs)[i := withReferences r' (p @ [i]) (cs ! i)])
        = length (withReferencesList r' p 0 cs)" by simp
  next
    fix j assume "j < length ((withReferencesList r p 0 cs)[i := withReferences r' (p @ [i]) (cs ! i)])"
    then have j: "j < length cs" by simp
    show "(withReferencesList r p 0 cs)[i := withReferences r' (p @ [i]) (cs ! i)] ! j
        = withReferencesList r' p 0 cs ! j"
    proof (cases "j = i")
      case True
      then show ?thesis using j by (simp add: withReferencesList_nth)
    next
      case False
      have "\<forall>q''. r ((p @ [j]) @ q'') = r' ((p @ [j]) @ q'')" using False by (simp add: r'_def)
      then have "withReferences r (p @ [j]) (cs ! j) = withReferences r' (p @ [j]) (cs ! j)"
        by (rule withReferences_cong(1))
      then show ?thesis using j False by (simp add: withReferencesList_nth)
    qed
  qed
  then have "replace_at (withReferences r p n) (i # q) (t_identifier x) = withReferences r' p n"
    using rp rp' i ih by (simp add: n withReferencesList_nth)
  then show ?case by (simp only: r'_def)
qed

lemma withReferences_zod:
  "(\<forall>a x. r a = Some x \<longrightarrow> x \<noteq> ''z'') \<Longrightarrow> isZodCall (withReferences r p n) \<Longrightarrow> isZodCall n"
proof (induction n arbitrary: p rule: getChainRoot.induct)
  case (1 callee args)
  show ?case
  proof (cases "r p")
    case (Some x)
    with 1 show ?thesis by (auto simp: isZodCall_def isZodIdentifier_def t_identifier_def)
  next
    case None
    with 1(1) [of "p @ [0]"] 1(2,3) show ?thesis by (simp add: isZodCall_def)
  qed
next
  case (2 c obj rest)
  show ?case
  proof (cases "r p")
    case (Some x)
    with 2 show ?thesis by (auto simp: isZodCall_def isZodIdentifier_def t_identifier_def)
  next
    case None
    with 2(1) [of "p @ [0]"] 2(2,3) show ?thesis by (simp add: isZodCall_def)
  qed
qed (auto simp: isZodCall_def isZodIdentifier_def t_identifier_def split: option.splits)

section \<open>The filters of the visitor\<close>

subsection \<open>The filters of the visitor, by the ancestors of a path\<close>

lemma strict_prefix_snoc: "strict_prefix a (ys @ [y]) \<longleftrightarrow> prefix a ys"
  by (auto simp: strict_prefix_def prefix_snoc dest: prefix_length_le)

lemma nestedLoop_iff:
  "nestedLoop t (Some a) \<longleftrightarrow> (\<exists>a'. prefix a' a \<and> isCallExpression t a' \<and> isZodCallAt t a')"
proof (induction a rule: rev_induct)
  case Nil
  show ?case by (simp add: nestedLoop.simps parentPath_def)
next
  case (snoc x xs)
  have "nestedLoop t (Some (xs @ [x]))
      \<longleftrightarrow> (isCallExpression t (xs @ [x]) \<and> isZodCallAt t (xs @ [x])) \<or> nestedLoop t (Some xs)"
    by (subst nestedLoop.simps) (auto simp: parentPath_def)
  with snoc show ?case by (auto simp: prefix_snoc)
qed

lemma isNestedInZodCall_iff:
  "isNestedInZodCall t p
     \<longleftrightarrow> (\<exists>a. strict_prefix a p \<and> isCallExpression t a \<and> isZodCallAt t a)"
proof (cases p rule: rev_cases)
  case Nil
  then show ?thesis by (simp add: isNestedInZodCall_def parentPath_def nestedLoop.simps)
next
  case (snoc xs x)
  then show ?thesis
    using nestedLoop_iff [of t xs]
    by (simp add: isNestedInZodCall_def parentPath_def strict_prefix_snoc)
qed

lemma findFunction_iff:
  "findFunction t (Some a) \<noteq> None \<longleftrightarrow> (\<exists>a'. prefix a' a \<and> isFunction t a')"
proof (induction a rule: rev_induct)
  case Nil
  show ?case by (simp add: findFunction.simps parentPath_def)
next
  case (snoc x xs)
  have "findFunction t (Some (xs @ [x])) \<noteq> None
      \<longleftrightarrow> isFunction t (xs @ [x]) \<or> findFunction t (Some xs) \<noteq> None"
    by (subst findFunction.simps) (auto simp: parentPath_def)
  with snoc show ?case by (auto simp: prefix_snoc)
qed

lemma getFunctionParent_iff:
  "getFunctionParent t p \<noteq> None \<longleftrightarrow> (\<exists>a. strict_prefix a p \<and> isFunction t a)"
proof (cases p rule: rev_cases)
  case Nil
  then show ?thesis by (simp add: getFunctionParent_def parentPath_def findFunction.simps)
next
  case (snoc xs x)
  then show ?thesis
    using findFunction_iff [of t xs]
    by (simp add: getFunctionParent_def parentPath_def strict_prefix_snoc)
qed

subsection \<open>The outermost call\<close>

lemma getOutermostCall_prefix: "prefix (getOutermostCall t c) c"
proof (induction t c rule: getOutermostCall.induct)
  case (1 t c)
  show ?case
  proof (cases "c \<noteq> [] \<and> isMemberExpression t (butlast c)
         \<and> butlast c \<noteq> [] \<and> isCallExpression t (butlast (butlast c))")
    case True
    then have "prefix (getOutermostCall t (butlast (butlast c))) (butlast (butlast c))"
      using 1 by simp
    moreover have "prefix (butlast (butlast c)) c"
      by (meson prefix_order.order_trans prefixeq_butlast)
    moreover have "getOutermostCall t c = getOutermostCall t (butlast (butlast c))"
      using True by (subst getOutermostCall.simps) simp
    ultimately show ?thesis by (metis prefix_order.order_trans)
  next
    case False
    then have "getOutermostCall t c = c" by (subst getOutermostCall.simps) auto
    then show ?thesis by simp
  qed
qed

lemma getOutermostCall_call:
  "isCallExpression t c \<Longrightarrow> isCallExpression t (getOutermostCall t c)"
proof (induction t c rule: getOutermostCall.induct)
  case (1 t c)
  show ?case
  proof (cases "c \<noteq> [] \<and> isMemberExpression t (butlast c)
         \<and> butlast c \<noteq> [] \<and> isCallExpression t (butlast (butlast c))")
    case True
    moreover have "getOutermostCall t c = getOutermostCall t (butlast (butlast c))"
      using True by (subst getOutermostCall.simps) simp
    ultimately show ?thesis using 1 by simp
  next
    case False
    then have "getOutermostCall t c = c" by (subst getOutermostCall.simps) auto
    then show ?thesis using 1(2) by simp
  qed
qed

lemma getOutermostCall_idem:
  "getOutermostCall t (getOutermostCall t c) = getOutermostCall t c"
proof (induction t c rule: getOutermostCall.induct)
  case (1 t c)
  show ?case
  proof (cases "c \<noteq> [] \<and> isMemberExpression t (butlast c)
         \<and> butlast c \<noteq> [] \<and> isCallExpression t (butlast (butlast c))")
    case True
    moreover have "getOutermostCall t c = getOutermostCall t (butlast (butlast c))"
      using True by (subst getOutermostCall.simps) simp
    ultimately show ?thesis using 1 by simp
  next
    case False
    then have "getOutermostCall t c = c" by (subst getOutermostCall.simps) auto
    then show ?thesis by simp
  qed
qed

lemma getOutermostCall_cong:
  "(\<forall>q. prefix q c \<longrightarrow> type_at t' q = type_at t q) \<Longrightarrow>
     getOutermostCall t' c = getOutermostCall t c"
proof (induction t c rule: getOutermostCall.induct)
  case (1 t c)
  have b1: "prefix (butlast c) c" by (rule prefixeq_butlast)
  have b2: "prefix (butlast (butlast c)) c"
    by (meson prefix_order.order_trans prefixeq_butlast)
  have m: "isMemberExpression t' (butlast c) = isMemberExpression t (butlast c)"
    using 1(2) b1 by (simp add: isMemberExpression_def)
  have k: "isCallExpression t' (butlast (butlast c)) = isCallExpression t (butlast (butlast c))"
    using 1(2) b2 by (simp add: isCallExpression_def)
  show ?case
  proof (cases "c \<noteq> [] \<and> isMemberExpression t (butlast c)
         \<and> butlast c \<noteq> [] \<and> isCallExpression t (butlast (butlast c))")
    case True
    have "\<forall>q. prefix q (butlast (butlast c)) \<longrightarrow> type_at t' q = type_at t q"
      using 1(2) b2 by (meson prefix_order.order_trans)
    then have "getOutermostCall t' (butlast (butlast c)) = getOutermostCall t (butlast (butlast c))"
      using 1(1) True by simp
    moreover have "getOutermostCall t c = getOutermostCall t (butlast (butlast c))"
      using True by (subst getOutermostCall.simps) simp
    moreover have "getOutermostCall t' c = getOutermostCall t' (butlast (butlast c))"
      using True m k by (subst getOutermostCall.simps) simp
    ultimately show ?thesis by simp
  next
    case False
    then have "getOutermostCall t c = c" by (subst getOutermostCall.simps) auto
    moreover have "getOutermostCall t' c = c"
      using False m k by (subst getOutermostCall.simps) auto
    ultimately show ?thesis by simp
  qed
qed

text \<open>Between a call and its outermost call lie member and call expressions only.\<close>

lemma getOutermostCall_function:
  "isCallExpression t c \<Longrightarrow>
     getFunctionParent t (getOutermostCall t c) \<noteq> None \<longleftrightarrow> getFunctionParent t c \<noteq> None"
proof (induction t c rule: getOutermostCall.induct)
  case (1 t c)
  show ?case
  proof (cases "c \<noteq> [] \<and> isMemberExpression t (butlast c)
         \<and> butlast c \<noteq> [] \<and> isCallExpression t (butlast (butlast c))")
    case True
    let ?c2 = "butlast (butlast c)"
    have o: "getOutermostCall t c = getOutermostCall t ?c2"
      using True by (subst getOutermostCall.simps) simp
    have ih: "getFunctionParent t (getOutermostCall t ?c2) \<noteq> None
        \<longleftrightarrow> getFunctionParent t ?c2 \<noteq> None"
      using 1(1) True by simp
    have nf1: "\<not> isFunction t (butlast c)"
      using True by (auto simp: isFunction_def isMemberExpression_def split: option.splits ntype.splits)
    have nf2: "\<not> isFunction t ?c2"
      using True by (auto simp: isFunction_def isCallExpression_def)
    obtain x where c: "c = butlast c @ [x]" using True by (metis append_butlast_last_id)
    obtain y where bc: "butlast c = ?c2 @ [y]" using True by (metis append_butlast_last_id)
    have sp: "strict_prefix a c \<longleftrightarrow> strict_prefix a ?c2 \<or> a = ?c2 \<or> a = butlast c" for a
    proof -
      have "strict_prefix a c \<longleftrightarrow> prefix a (butlast c)"
        using strict_prefix_snoc [of a "butlast c" x] c by simp
      also have "\<dots> \<longleftrightarrow> prefix a ?c2 \<or> a = butlast c"
        using prefix_snoc [of a ?c2 y] bc by auto
      finally show ?thesis by (auto simp: strict_prefix_def)
    qed
    have "getFunctionParent t c \<noteq> None \<longleftrightarrow> (\<exists>a. strict_prefix a c \<and> isFunction t a)"
      by (rule getFunctionParent_iff)
    also have "\<dots> \<longleftrightarrow> (\<exists>a. strict_prefix a ?c2 \<and> isFunction t a)"
      using nf1 nf2 sp by blast
    also have "\<dots> \<longleftrightarrow> getFunctionParent t ?c2 \<noteq> None"
      by (rule getFunctionParent_iff [symmetric])
    finally show ?thesis using o ih by simp
  next
    case False
    then have "getOutermostCall t c = c" by (subst getOutermostCall.simps) auto
    then show ?thesis by simp
  qed
qed

subsection \<open>The safety analysis reads the candidate only\<close>

lemma subpaths_tl:
  "r \<in> set (tl (subpaths n)) \<longleftrightarrow> r \<noteq> [] \<and> node_at n r \<noteq> None"
proof -
  obtain k cs where n: "n = Node k cs" by (cases n)
  have "sorted_wrt (<) (subpaths n)" by (rule sorted_subpaths)
  then have "[] \<notin> set (subpaths_list 0 cs)" by (auto simp: n)
  moreover have "set (subpaths n) = insert [] (set (subpaths_list 0 cs))" by (simp add: n)
  ultimately show ?thesis using set_subpaths(1) [of n] by (auto simp: n)
qed

lemma type_at_append:
  "node_at t p = Some n \<Longrightarrow> type_at t (p @ r) = type_at n r"
  by (simp add: type_at_def node_at_append)

lemma disqualifies_transfer:
  assumes "node_at t p = Some n" and "node_at t' p' = Some n" and "r \<noteq> []"
    and "\<And>name. type_at n r = Some (Identifier name) \<Longrightarrow>
           bindingVerdict p' (getBinding e' (p' @ r) name)
             = bindingVerdict p (getBinding e (p @ r) name)"
  shows "disqualifies e' t' p' (p' @ r) = disqualifies e t p (p @ r)"
proof -
  have ty: "type_at t' (p' @ r) = type_at n r" "type_at t (p @ r) = type_at n r"
    using assms(1,2) by (simp_all add: type_at_append)
  have bl: "butlast (p' @ r) = p' @ butlast r" "butlast (p @ r) = p @ butlast r"
    using assms(3) by (simp_all add: butlast_append)
  have pn: "isPropertyName t' (p' @ r) = isPropertyName t (p @ r)"
    using assms(1,2,3) by (simp add: isPropertyName_def bl type_at_append)
  have ok: "isObjectKey t' (p' @ r) = isObjectKey t (p @ r)"
    using assms(1,2,3) by (simp add: isObjectKey_def bl type_at_append)
  show ?thesis
  proof (cases "type_at n r")
    case None
    then show ?thesis by (simp add: disqualifies_def hoistStep_def ty freshState_def)
  next
    case (Some k)
    show ?thesis
    proof (cases "\<exists>name. k = Identifier name")
      case True
      then obtain name where k: "k = Identifier name" by blast
      from assms(4) [of name] Some k
      have "bindingVerdict p' (getBinding e' (p' @ r) name)
          = bindingVerdict p (getBinding e (p @ r) name)" by simp
      then show ?thesis
        by (auto simp: disqualifies_def hoistStep_def ty Some k freshState_def
            identifierVisitor_def pn ok Let_def bindingVerdict_def split: option.splits)
    next
      case False
      then show ?thesis
        by (cases k) (simp_all add: disqualifies_def hoistStep_def ty Some freshState_def)
    qed
  qed
qed

lemma canSafelyHoist_transfer:
  assumes "node_at t p = Some n" and "node_at t' p' = Some n"
    and "\<And>r name. r \<noteq> [] \<Longrightarrow> type_at n r = Some (Identifier name) \<Longrightarrow>
           bindingVerdict p' (getBinding e' (p' @ r) name)
             = bindingVerdict p (getBinding e (p @ r) name)"
  shows "canSafelyHoist e' t' p' = canSafelyHoist e t p"
proof -
  have "disqualifies e' t' p' (p' @ r) = disqualifies e t p (p @ r)"
    if "r \<in> set (tl (subpaths n))" for r
  proof -
    from that have "r \<noteq> []" by (simp add: subpaths_tl)
    with assms show ?thesis by (intro disqualifies_transfer) auto
  qed
  then show ?thesis
    using assms(1,2) by (simp add: canSafelyHoist_iff descendants_def)
qed

lemma canSafelyHoist_cong:
  assumes "node_at t' p = node_at t p"
  shows "canSafelyHoist e t' p = canSafelyHoist e t p"
proof (cases "node_at t p")
  case None
  with assms show ?thesis by (simp add: canSafelyHoist_iff descendants_def)
next
  case (Some n)
  with assms show ?thesis by (intro canSafelyHoist_transfer [of t p n]) auto
qed

section \<open>The invariant of the traversal\<close>

lemma invariantI:
  assumes "prog st = withReferences (sitesOf e t (set visited) (hoistedSchemas st)) [] t"
    and "\<forall>a\<in>set visited. isAcceptedCandidate e t a
         \<longrightarrow> canonicalForm e t a \<in> fst ` set (hoistedSchemas st)"
    and "\<forall>q\<in>set visited.
         isCallExpression t q \<and> isZodCallAt t q \<and> getOutermostCall t q = q
         \<and> (\<forall>a\<in>set visited. isAcceptedCandidate e t a \<longrightarrow> \<not> strict_prefix a q)
         \<longrightarrow> q \<in> processedNodes st"
    and "\<forall>q\<in>processedNodes st. \<exists>d\<in>set visited. prefix q d"
    and "hoistedSchemas st = map (\<lambda>d. (generate e (snd d), fst d)) (schemasToHoist st)"
    and "map fst (hoistedSchemas st)
        = firstOccurrences (map (canonicalForm e t) (filter (isAcceptedCandidate e t) visited))"
    and "uids st = map fst (schemasToHoist st)"
    and "\<forall>d\<in>set (schemasToHoist st).
         \<exists>a\<in>set visited. isAcceptedCandidate e t a \<and> node_at t a = Some (snd d)"
    and "\<forall>d\<in>set (schemasToHoist st). fst d \<noteq> ''z''"
  shows "passInvariant e t visited st"
  unfolding passInvariant_def using assms by blast

lemma invariant_prog:
  "passInvariant e t visited st \<Longrightarrow>
     prog st = withReferences (sitesOf e t (set visited) (hoistedSchemas st)) [] t"
  unfolding passInvariant_def by blast

lemma invariant_registered:
  "passInvariant e t visited st \<Longrightarrow> a \<in> set visited \<Longrightarrow> isAcceptedCandidate e t a \<Longrightarrow>
     canonicalForm e t a \<in> fst ` set (hoistedSchemas st)"
  unfolding passInvariant_def by blast

lemma invariant_processed:
  "passInvariant e t visited st \<Longrightarrow> q \<in> set visited \<Longrightarrow>
     isCallExpression t q \<Longrightarrow> isZodCallAt t q \<Longrightarrow> getOutermostCall t q = q \<Longrightarrow>
     (\<forall>a\<in>set visited. isAcceptedCandidate e t a \<longrightarrow> \<not> strict_prefix a q) \<Longrightarrow>
     q \<in> processedNodes st"
  unfolding passInvariant_def by blast

lemma invariant_processed_prefix:
  "passInvariant e t visited st \<Longrightarrow> q \<in> processedNodes st \<Longrightarrow> \<exists>d\<in>set visited. prefix q d"
  unfolding passInvariant_def by blast

lemma invariant_map:
  "passInvariant e t visited st \<Longrightarrow>
     hoistedSchemas st = map (\<lambda>d. (generate e (snd d), fst d)) (schemasToHoist st)"
  unfolding passInvariant_def by blast

lemma invariant_order:
  "passInvariant e t visited st \<Longrightarrow>
     map fst (hoistedSchemas st)
       = firstOccurrences (map (canonicalForm e t) (filter (isAcceptedCandidate e t) visited))"
  unfolding passInvariant_def by blast

lemma invariant_uids:
  "passInvariant e t visited st \<Longrightarrow> uids st = map fst (schemasToHoist st)"
  unfolding passInvariant_def by blast

lemma invariant_inits:
  "passInvariant e t visited st \<Longrightarrow> d \<in> set (schemasToHoist st) \<Longrightarrow>
     \<exists>a\<in>set visited. isAcceptedCandidate e t a \<and> node_at t a = Some (snd d)"
  unfolding passInvariant_def by blast

lemma invariant_names:
  "passInvariant e t visited st \<Longrightarrow> d \<in> set (schemasToHoist st) \<Longrightarrow> fst d \<noteq> ''z''"
  unfolding passInvariant_def by blast

lemma firstOccurrences_snoc:
  "firstOccurrences (xs @ [x])
     = (if x \<in> set xs then firstOccurrences xs else firstOccurrences xs @ [x])"
  by (simp add: firstOccurrences_def)

lemma set_firstOccurrences [simp]: "set (firstOccurrences xs) = set xs"
  by (simp add: firstOccurrences_def)

lemma distinct_firstOccurrences [simp]: "distinct (firstOccurrences xs)"
  by (simp add: firstOccurrences_def)

lemma invariant_initial: "passInvariant e t [] (initialState t)"
proof -
  have "withReferences (sitesOf e t {} []) [] t = t"
    by (rule withReferences_id(1)) (simp add: sitesOf_def)
  then show ?thesis
    by (intro invariantI) (simp_all add: initialState_def firstOccurrences_def)
qed

text \<open>A step that hoists nothing.\<close>

lemma invariant_skip:
  assumes inv: "passInvariant e t visited st"
    and nacc: "\<not> isAcceptedCandidate e t c"
    and sub: "processedNodes st \<subseteq> P'"
    and new: "\<forall>q\<in>P'. q \<in> processedNodes st \<or> prefix q c"
    and own: "isCallExpression t c \<and> isZodCallAt t c \<and> getOutermostCall t c = c
         \<and> (\<forall>a\<in>set visited. isAcceptedCandidate e t a \<longrightarrow> \<not> strict_prefix a c)
         \<longrightarrow> c \<in> P'"
  shows "passInvariant e t (visited @ [c]) (st\<lparr>processedNodes := P'\<rparr>)"
proof (rule invariantI)
  let ?st = "st\<lparr>processedNodes := P'\<rparr>"
  have same: "sitesOf e t (set (visited @ [c])) (hoistedSchemas st)
      = sitesOf e t (set visited) (hoistedSchemas st)"
    using nacc by (auto simp: sitesOf_def referenceOf_def fun_eq_iff)
  show "prog ?st = withReferences (sitesOf e t (set (visited @ [c])) (hoistedSchemas ?st)) [] t"
    using invariant_prog [OF inv] same by simp
  show "\<forall>a\<in>set (visited @ [c]). isAcceptedCandidate e t a
         \<longrightarrow> canonicalForm e t a \<in> fst ` set (hoistedSchemas ?st)"
    using invariant_registered [OF inv] nacc by auto
  show "\<forall>q\<in>set (visited @ [c]).
         isCallExpression t q \<and> isZodCallAt t q \<and> getOutermostCall t q = q
         \<and> (\<forall>a\<in>set (visited @ [c]). isAcceptedCandidate e t a \<longrightarrow> \<not> strict_prefix a q)
         \<longrightarrow> q \<in> processedNodes ?st"
  proof (intro ballI impI)
    fix q assume q: "q \<in> set (visited @ [c])"
      and h: "isCallExpression t q \<and> isZodCallAt t q \<and> getOutermostCall t q = q
         \<and> (\<forall>a\<in>set (visited @ [c]). isAcceptedCandidate e t a \<longrightarrow> \<not> strict_prefix a q)"
    show "q \<in> processedNodes ?st"
    proof (cases "q = c")
      case True
      with h own show ?thesis by simp
    next
      case False
      with q have "q \<in> set visited" by simp
      then have "q \<in> processedNodes st"
        using h by (intro invariant_processed [OF inv]) auto
      with sub show ?thesis by auto
    qed
  qed
  show "\<forall>q\<in>processedNodes ?st. \<exists>d\<in>set (visited @ [c]). prefix q d"
  proof
    fix q assume "q \<in> processedNodes ?st"
    then have "q \<in> processedNodes st \<or> prefix q c" using new by simp
    then show "\<exists>d\<in>set (visited @ [c]). prefix q d"
    proof
      assume "q \<in> processedNodes st"
      then obtain d where "d \<in> set visited" "prefix q d"
        using invariant_processed_prefix [OF inv] by blast
      then show ?thesis by auto
    next
      assume "prefix q c"
      then show ?thesis by auto
    qed
  qed
  show "map fst (hoistedSchemas ?st)
        = firstOccurrences (map (canonicalForm e t)
            (filter (isAcceptedCandidate e t) (visited @ [c])))"
    using invariant_order [OF inv] nacc by simp
  show "\<forall>d\<in>set (schemasToHoist ?st).
         \<exists>a\<in>set (visited @ [c]). isAcceptedCandidate e t a \<and> node_at t a = Some (snd d)"
    using invariant_inits [OF inv] by fastforce
  show "hoistedSchemas ?st = map (\<lambda>d. (generate e (snd d), fst d)) (schemasToHoist ?st)"
    using invariant_map [OF inv] by simp
  show "uids ?st = map fst (schemasToHoist ?st)"
    using invariant_uids [OF inv] by simp
  show "\<forall>d\<in>set (schemasToHoist ?st). fst d \<noteq> ''z''"
    using invariant_names [OF inv] by simp
qed



lemma map_of_in_fst: "k \<in> fst ` set h \<longleftrightarrow> map_of h k \<noteq> None"
  by (simp add: map_of_eq_None_iff)

text \<open>A step that replaces the accepted candidate at \<open>c\<close>.\<close>

lemma invariant_hoist:
  assumes inv: "passInvariant e t visited st"
    and acc: "isAcceptedCandidate e t c"
    and n: "node_at t c = Some n"
    and above: "\<forall>a. strict_prefix a c \<longrightarrow> sitesOf e t (set visited) (hoistedSchemas st) a = None"
  shows "passInvariant e t (visited @ [c])
           (hoistAt e c n (st\<lparr>processedNodes := insert c (processedNodes st)\<rparr>))"
proof -
  let ?h = "hoistedSchemas st"
  let ?code = "generate e n"
  let ?st1 = "st\<lparr>processedNodes := insert c (processedNodes st)\<rparr>"
  let ?xs = "map (canonicalForm e t) (filter (isAcceptedCandidate e t) visited)"
  have code: "canonicalForm e t c = ?code" using n by (simp add: canonicalForm_def)
  have keys: "fst ` set ?h = set ?xs"
    using invariant_order [OF inv] by (metis set_firstOccurrences set_map)
  have order_snoc: "map (canonicalForm e t) (filter (isAcceptedCandidate e t) (visited @ [c]))
      = ?xs @ [?code]" using acc code by simp
  have replaced: "replace_at (prog st) c (t_identifier x)
      = withReferences ((sitesOf e t (set visited) ?h)(c \<mapsto> x)) [] t" for x
  proof -
    have "replace_at (withReferences (sitesOf e t (set visited) ?h) [] t) c (t_identifier x)
        = withReferences ((sitesOf e t (set visited) ?h)([] @ c \<mapsto> x)) [] t"
      by (rule withReferences_replace) (use n above in auto)
    then show ?thesis using invariant_prog [OF inv] by simp
  qed
  have processed: "\<forall>q\<in>set (visited @ [c]).
         isCallExpression t q \<and> isZodCallAt t q \<and> getOutermostCall t q = q
         \<and> (\<forall>a\<in>set (visited @ [c]). isAcceptedCandidate e t a \<longrightarrow> \<not> strict_prefix a q)
         \<longrightarrow> q \<in> insert c (processedNodes st)"
  proof (intro ballI impI)
    fix q assume q: "q \<in> set (visited @ [c])"
      and h: "isCallExpression t q \<and> isZodCallAt t q \<and> getOutermostCall t q = q
         \<and> (\<forall>a\<in>set (visited @ [c]). isAcceptedCandidate e t a \<longrightarrow> \<not> strict_prefix a q)"
    show "q \<in> insert c (processedNodes st)"
    proof (cases "q = c")
      case True
      then show ?thesis by simp
    next
      case False
      with q have "q \<in> set visited" by simp
      then have "q \<in> processedNodes st"
        using h by (intro invariant_processed [OF inv]) auto
      then show ?thesis by simp
    qed
  qed
  have prefixes: "\<forall>q\<in>insert c (processedNodes st). \<exists>d\<in>set (visited @ [c]). prefix q d"
  proof
    fix q assume "q \<in> insert c (processedNodes st)"
    then show "\<exists>d\<in>set (visited @ [c]). prefix q d"
    proof
      assume "q = c"
      then show ?thesis by auto
    next
      assume "q \<in> processedNodes st"
      then obtain d where "d \<in> set visited" "prefix q d"
        using invariant_processed_prefix [OF inv] by blast
      then show ?thesis by auto
    qed
  qed
  show ?thesis
  proof (cases "map_of ?h ?code")
    case (Some x)
    let ?st' = "?st1\<lparr>prog := replace_at (prog st) c (t_identifier x)\<rparr>"
    have st': "hoistAt e c n ?st1 = ?st'" using Some by (simp add: hoistAt_def)
    have sites: "(sitesOf e t (set visited) ?h)(c \<mapsto> x) = sitesOf e t (set (visited @ [c])) ?h"
      using acc Some code by (auto simp: sitesOf_def referenceOf_def fun_eq_iff)
    have known: "?code \<in> set ?xs"
    proof -
      have "?code \<in> fst ` set ?h" using Some by (simp add: map_of_in_fst)
      then show ?thesis unfolding keys .
    qed
    have "passInvariant e t (visited @ [c]) ?st'"
    proof (rule invariantI)
      show "prog ?st' = withReferences (sitesOf e t (set (visited @ [c])) (hoistedSchemas ?st')) [] t"
        using replaced [of x] sites by simp
      show "\<forall>a\<in>set (visited @ [c]). isAcceptedCandidate e t a
         \<longrightarrow> canonicalForm e t a \<in> fst ` set (hoistedSchemas ?st')"
        using invariant_registered [OF inv] known keys code by auto
      show "\<forall>q\<in>set (visited @ [c]).
         isCallExpression t q \<and> isZodCallAt t q \<and> getOutermostCall t q = q
         \<and> (\<forall>a\<in>set (visited @ [c]). isAcceptedCandidate e t a \<longrightarrow> \<not> strict_prefix a q)
         \<longrightarrow> q \<in> processedNodes ?st'"
        using processed by simp
      show "\<forall>q\<in>processedNodes ?st'. \<exists>d\<in>set (visited @ [c]). prefix q d"
        using prefixes by simp
      show "hoistedSchemas ?st' = map (\<lambda>d. (generate e (snd d), fst d)) (schemasToHoist ?st')"
        using invariant_map [OF inv] by simp
      show "map fst (hoistedSchemas ?st')
        = firstOccurrences (map (canonicalForm e t)
            (filter (isAcceptedCandidate e t) (visited @ [c])))"
        unfolding order_snoc using invariant_order [OF inv] known
        by (simp add: firstOccurrences_snoc)
      show "uids ?st' = map fst (schemasToHoist ?st')"
        using invariant_uids [OF inv] by simp
      show "\<forall>d\<in>set (schemasToHoist ?st').
         \<exists>a\<in>set (visited @ [c]). isAcceptedCandidate e t a \<and> node_at t a = Some (snd d)"
        using invariant_inits [OF inv] by fastforce
      show "\<forall>d\<in>set (schemasToHoist ?st'). fst d \<noteq> ''z''"
        using invariant_names [OF inv] by simp
    qed
    with st' show ?thesis by simp
  next
    case None
    define x where "x = generateUidIdentifier e (uids st) (''schema_'' @ generateHash e ?code)"
    let ?h' = "?h @ [(?code, x)]"
    let ?st' = "?st1\<lparr>prog := replace_at (prog st) c (t_identifier x),
        hoistedSchemas := ?h', schemasToHoist := schemasToHoist st @ [(x, n)],
        uids := uids st @ [x]\<rparr>"
    have st': "hoistAt e c n ?st1 = ?st'"
      using None by (simp add: hoistAt_def x_def Let_def)
    have xz: "x \<noteq> ''z''" by (simp add: x_def generateUidIdentifier_def)
    have new: "?code \<notin> set ?xs"
    proof -
      have "?code \<notin> fst ` set ?h" using None by (simp add: map_of_in_fst)
      then show ?thesis unfolding keys .
    qed
    have sites: "(sitesOf e t (set visited) ?h)(c \<mapsto> x) = sitesOf e t (set (visited @ [c])) ?h'"
    proof (rule ext)
      fix a
      consider "a = c" | "a \<noteq> c" "a \<in> set visited \<and> isAcceptedCandidate e t a"
        | "a \<noteq> c" "\<not> (a \<in> set visited \<and> isAcceptedCandidate e t a)" by blast
      then show "((sitesOf e t (set visited) ?h)(c \<mapsto> x)) a
          = sitesOf e t (set (visited @ [c])) ?h' a"
      proof cases
        case 1
        then show ?thesis using acc code None
          by (simp add: sitesOf_def referenceOf_def map_add_def)
      next
        case 2
        then have "canonicalForm e t a \<in> fst ` set ?h"
          using invariant_registered [OF inv] by blast
        then obtain y where "map_of ?h (canonicalForm e t a) = Some y"
          by (auto simp only: map_of_in_fst)
        then show ?thesis using 2
          by (simp add: sitesOf_def referenceOf_def map_add_def)
      next
        case 3
        then show ?thesis by (auto simp: sitesOf_def referenceOf_def)
      qed
    qed
    have "passInvariant e t (visited @ [c]) ?st'"
    proof (rule invariantI)
      show "prog ?st' = withReferences (sitesOf e t (set (visited @ [c])) (hoistedSchemas ?st')) [] t"
        using replaced [of x] sites by simp
      show "\<forall>a\<in>set (visited @ [c]). isAcceptedCandidate e t a
         \<longrightarrow> canonicalForm e t a \<in> fst ` set (hoistedSchemas ?st')"
        using invariant_registered [OF inv] code by auto
      show "\<forall>q\<in>set (visited @ [c]).
         isCallExpression t q \<and> isZodCallAt t q \<and> getOutermostCall t q = q
         \<and> (\<forall>a\<in>set (visited @ [c]). isAcceptedCandidate e t a \<longrightarrow> \<not> strict_prefix a q)
         \<longrightarrow> q \<in> processedNodes ?st'"
        using processed by simp
      show "\<forall>q\<in>processedNodes ?st'. \<exists>d\<in>set (visited @ [c]). prefix q d"
        using prefixes by simp
      show "hoistedSchemas ?st' = map (\<lambda>d. (generate e (snd d), fst d)) (schemasToHoist ?st')"
        using invariant_map [OF inv] by simp
      show "map fst (hoistedSchemas ?st')
        = firstOccurrences (map (canonicalForm e t)
            (filter (isAcceptedCandidate e t) (visited @ [c])))"
        unfolding order_snoc using invariant_order [OF inv] new
        by (simp add: firstOccurrences_snoc)
      show "uids ?st' = map fst (schemasToHoist ?st')"
        using invariant_uids [OF inv] by simp
      show "\<forall>d\<in>set (schemasToHoist ?st').
         \<exists>a\<in>set (visited @ [c]). isAcceptedCandidate e t a \<and> node_at t a = Some (snd d)"
        using invariant_inits [OF inv] acc n by fastforce
      show "\<forall>d\<in>set (schemasToHoist ?st'). fst d \<noteq> ''z''"
        using invariant_names [OF inv] xz by simp
    qed
    with st' show ?thesis by simp
  qed
qed

lemma invariant_step:
  assumes inv: "passInvariant e t visited st"
    and split: "subpaths t = visited @ c # rest"
  shows "passInvariant e t (visited @ [c]) (visitPath e st c)"
proof -
  let ?s = "sitesOf e t (set visited) (hoistedSchemas st)"
  have prog: "prog st = withReferences ?s [] t" by (rule invariant_prog [OF inv])
  have "c \<in> set (subpaths t)" using split by simp
  then obtain n where n: "node_at t c = Some n" by (auto simp: set_subpaths)
  have before: "\<forall>d\<in>set visited. \<not> prefix c d"
    using subpaths_before [OF split] by blast
  have anc: "a \<in> set visited" if "strict_prefix a c" for a
    using subpaths_ancestor_done [OF split that] .
  have site_acc: "a \<in> set visited \<and> isAcceptedCandidate e t a" if "?s a \<noteq> None" for a
    using that by (auto simp: sitesOf_def referenceOf_def split: if_splits)
  have site_z: "x \<noteq> ''z''" if "?s a = Some x" for a x
  proof -
    from that have "map_of (hoistedSchemas st) (canonicalForm e t a) = Some x"
      by (auto simp: sitesOf_def referenceOf_def split: if_splits)
    then have "(canonicalForm e t a, x) \<in> set (hoistedSchemas st)" by (rule map_of_SomeD)
    then obtain d where "d \<in> set (schemasToHoist st)" "x = fst d"
      unfolding invariant_map [OF inv] by auto
    then show ?thesis by (simp add: invariant_names [OF inv])
  qed
  have acc_site: "?s a \<noteq> None" if "a \<in> set visited" "isAcceptedCandidate e t a" for a
  proof -
    have "canonicalForm e t a \<in> fst ` set (hoistedSchemas st)"
      using invariant_registered [OF inv that] .
    then obtain y where "map_of (hoistedSchemas st) (canonicalForm e t a) = Some y"
      by (auto simp only: map_of_in_fst)
    then show ?thesis using that by (simp add: sitesOf_def referenceOf_def)
  qed
  have below: "?s (c @ q) = None" for q
    using before by (auto simp: sitesOf_def)
  have acc_nested: "isNestedInZodCall t q" if "isAcceptedCandidate e t a" "strict_prefix a q" for a q
    using that by (auto simp: isNestedInZodCall_iff isAcceptedCandidate_def)
  show ?thesis
  proof (cases "\<exists>a. strict_prefix a c \<and> ?s a \<noteq> None")
    case True
    then obtain a where a: "strict_prefix a c" "?s a \<noteq> None" by blast
    have "node_at (prog st) c = None"
      unfolding prog by (rule withReferences_node_at_below [of a]) (use a in simp_all)
    then have v: "visitPath e st c = st"
      by (simp add: visitPath_def isCallExpression_def type_at_def)
    have acc_a: "a \<in> set visited" "isAcceptedCandidate e t a" using site_acc [OF a(2)] by simp_all
    have nacc: "\<not> isAcceptedCandidate e t c"
      using acc_nested [OF acc_a(2) a(1)] by (simp add: isAcceptedCandidate_def)
    have "passInvariant e t (visited @ [c]) (st\<lparr>processedNodes := processedNodes st\<rparr>)"
      by (rule invariant_skip [OF inv nacc]) (use acc_a a(1) in auto)
    then show ?thesis using v by simp
  next
    case False
    then have above: "\<forall>a. strict_prefix a c \<longrightarrow> ?s a = None" by blast
    have at: "node_at (prog st) q = map_option (withReferences ?s q) (node_at t q)"
      if "prefix q c" for q
    proof -
      have "\<forall>q'. strict_prefix q' q \<longrightarrow> ?s ([] @ q') = None"
        using above that by (auto intro: prefix_order.less_le_trans)
      from withReferences_node_at [OF this] show ?thesis by (simp add: prog)
    qed
    have none: "?s q = None" if "prefix q c" for q
      using that above below [of "[]"] by (cases "q = c") auto
    have types: "type_at (prog st) q = type_at t q" if "prefix q c" for q
      using at [OF that] none [OF that]
      by (cases "node_at t q") (simp_all add: type_at_def withReferences_type)
    have same: "node_at (prog st) c = node_at t c"
    proof -
      have "withReferences ?s c n = n"
        by (rule withReferences_id(1)) (simp add: below)
      then show ?thesis using at [of c] n by simp
    qed
    have zod_back: "isZodCallAt t a" if pa: "prefix a c" and za: "isZodCallAt (prog st) a" for a
    proof -
      from za obtain m where m: "node_at t a = Some m" "isZodCall (withReferences ?s a m)"
        using at [OF pa] by (auto simp: isZodCallAt_def split: option.splits)
      have "isZodCall m"
        by (rule withReferences_zod [OF _ m(2)]) (use site_z in blast)
      then show ?thesis using m(1) by (simp add: isZodCallAt_def)
    qed
    have zod_forth: "isZodCallAt (prog st) a"
      if spa: "strict_prefix a c" and ka: "isCallExpression t a" and za: "isZodCallAt t a" for a
    proof -
      from za obtain m where m: "node_at t a = Some m"
        by (auto simp: isZodCallAt_def split: option.splits)
      have "?s (a @ q) = None" for q
      proof (rule ccontr)
        assume s: "?s (a @ q) \<noteq> None"
        then have "q \<noteq> []" using above spa by auto
        then have "strict_prefix a (a @ q)" by (simp add: strict_prefix_def)
        then have "isNestedInZodCall t (a @ q)"
          using ka za by (auto simp: isNestedInZodCall_iff)
        then show False using site_acc [OF s] by (simp add: isAcceptedCandidate_def)
      qed
      then have "withReferences ?s a m = m" by (intro withReferences_id(1)) simp
      then have "node_at (prog st) a = node_at t a"
        using at [of a] spa m by (simp add: strict_prefix_def)
      then show ?thesis using za by (simp add: isZodCallAt_def)
    qed
    have csame: "isCallExpression (prog st) q = isCallExpression t q" if "prefix q c" for q
      using types [OF that] by (simp add: isCallExpression_def)
    have nested: "isNestedInZodCall (prog st) c = isNestedInZodCall t c"
    proof -
      have "(isCallExpression (prog st) a \<and> isZodCallAt (prog st) a)
          = (isCallExpression t a \<and> isZodCallAt t a)" if "strict_prefix a c" for a
        using that csame [of a] zod_back [of a] zod_forth [of a]
        by (auto simp: strict_prefix_def)
      then show ?thesis unfolding isNestedInZodCall_iff by blast
    qed
    have fp: "(getFunctionParent (prog st) c = None) = (getFunctionParent t c = None)"
    proof -
      have "isFunction (prog st) a = isFunction t a" if "strict_prefix a c" for a
        using types [of a] that by (simp add: isFunction_def strict_prefix_def)
      then have "(getFunctionParent (prog st) c \<noteq> None) = (getFunctionParent t c \<noteq> None)"
        unfolding getFunctionParent_iff by blast
      then show ?thesis by blast
    qed
    have omc: "getOutermostCall (prog st) c = getOutermostCall t c"
      by (rule getOutermostCall_cong) (use types in blast)
    have glob: "isGlobalZodReference e (prog st) c = isGlobalZodReference e t c"
      by (simp add: isGlobalZodReference_def same)
    have safe: "canSafelyHoist e (prog st) c = canSafelyHoist e t c"
      by (rule canSafelyHoist_cong [OF same])
    have zsame: "isZodCallAt (prog st) c = isZodCallAt t c"
      by (simp add: isZodCallAt_def same)
    show ?thesis
    proof (cases "isCallExpression t c \<and> isZodCallAt t c")
      case False
      then have v: "visitPath e st c = st"
        using csame [of c] zsame by (auto simp: visitPath_def callExpressionVisitor_def)
      have nacc: "\<not> isAcceptedCandidate e t c"
        using False by (auto simp: isAcceptedCandidate_def)
      have "passInvariant e t (visited @ [c]) (st\<lparr>processedNodes := processedNodes st\<rparr>)"
        by (rule invariant_skip [OF inv nacc]) (use False in auto)
      then show ?thesis using v by simp
    next
      case zod: True
      let ?O = "getOutermostCall t c"
      have pre: "prefix ?O c" by (rule getOutermostCall_prefix)
      show ?thesis
      proof (cases "?O \<in> processedNodes st")
        case True
        then have v: "visitPath e st c = st"
          using zod csame [of c] zsame omc
          by (simp add: visitPath_def callExpressionVisitor_def)
        have "?O \<noteq> c"
        proof
          assume "?O = c"
          with True obtain d where "d \<in> set visited" "prefix c d"
            using invariant_processed_prefix [OF inv, of c] by auto
          with before show False by blast
        qed
        then have nacc: "\<not> isAcceptedCandidate e t c" by (simp add: isAcceptedCandidate_def)
        have "passInvariant e t (visited @ [c]) (st\<lparr>processedNodes := processedNodes st\<rparr>)"
          by (rule invariant_skip [OF inv nacc]) (use \<open>?O \<noteq> c\<close> in auto)
        then show ?thesis using v by simp
      next
        case notin: False
        let ?P = "insert ?O (processedNodes st)"
        show ?thesis
        proof (cases "?O = c")
          case False
          then have sp: "strict_prefix ?O c" using pre by (simp add: strict_prefix_def)
          have ng: "\<not> isGlobalZodReference e (prog st) ?O"
          proof
            assume "isGlobalZodReference e (prog st) ?O"
            then have "isZodCallAt (prog st) ?O"
              by (auto simp: isGlobalZodReference_def isZodCallAt_def isZodCall_def
                  split: option.splits if_splits)
            then have z: "isZodCallAt t ?O" by (rule zod_back [OF pre])
            have k: "isCallExpression t ?O" using zod by (simp add: getOutermostCall_call)
            have "\<forall>a\<in>set visited. isAcceptedCandidate e t a \<longrightarrow> \<not> strict_prefix a ?O"
            proof (intro ballI impI notI)
              fix a assume a: "a \<in> set visited" "isAcceptedCandidate e t a" "strict_prefix a ?O"
              then have "strict_prefix a c" using sp by (meson prefix_order.less_trans)
              with above have "?s a = None" by blast
              with acc_site [OF a(1,2)] show False by simp
            qed
            then have "?O \<in> processedNodes st"
              using anc [OF sp] k z getOutermostCall_idem [of t c]
              by (intro invariant_processed [OF inv]) auto
            with notin show False by simp
          qed
          have v: "visitPath e st c = st\<lparr>processedNodes := ?P\<rparr>"
            using zod csame [of c] zsame omc notin ng
            by (simp add: visitPath_def callExpressionVisitor_def Let_def)
          have nacc: "\<not> isAcceptedCandidate e t c"
            using False by (simp add: isAcceptedCandidate_def)
          have "passInvariant e t (visited @ [c]) (st\<lparr>processedNodes := ?P\<rparr>)"
            by (rule invariant_skip [OF inv nacc]) (use False pre in auto)
          then show ?thesis using v by simp
        next
          case own: True
          have filters: "(\<not> isNestedInZodCall (prog st) c \<and> isGlobalZodReference e (prog st) c
              \<and> getFunctionParent (prog st) c \<noteq> None \<and> canSafelyHoist e (prog st) c)
              = isAcceptedCandidate e t c"
            using zod own nested glob fp safe by (auto simp: isAcceptedCandidate_def)
          show ?thesis
          proof (cases "isAcceptedCandidate e t c")
            case True
            with filters have f: "\<not> isNestedInZodCall (prog st) c"
              "isGlobalZodReference e (prog st) c"
              "getFunctionParent (prog st) c \<noteq> None" "canSafelyHoist e (prog st) c" by simp_all
            from f(3) obtain fparent where fpar: "getFunctionParent (prog st) c = Some fparent"
              by auto
            have v: "visitPath e st c
                = hoistAt e c n (st\<lparr>processedNodes := insert c (processedNodes st)\<rparr>)"
              using zod csame [of c] zsame omc notin own f(1,2,4) fpar same n
              by (simp add: visitPath_def callExpressionVisitor_def Let_def)
            show ?thesis unfolding v by (rule invariant_hoist [OF inv True n above])
          next
            case False
            with filters have "isNestedInZodCall (prog st) c
                \<or> \<not> isGlobalZodReference e (prog st) c
                \<or> getFunctionParent (prog st) c = None \<or> \<not> canSafelyHoist e (prog st) c"
              by blast
            then have v: "visitPath e st c
                = st\<lparr>processedNodes := insert c (processedNodes st)\<rparr>"
              using zod csame [of c] zsame omc notin own
              by (auto simp: visitPath_def callExpressionVisitor_def Let_def)
            have "passInvariant e t (visited @ [c])
                (st\<lparr>processedNodes := insert c (processedNodes st)\<rparr>)"
              by (rule invariant_skip [OF inv False]) auto
            then show ?thesis using v by simp
          qed
        qed
      qed
    qed
  qed
qed

lemma invariant_fold:
  "passInvariant e t visited st \<Longrightarrow> subpaths t = visited @ todo \<Longrightarrow>
     passInvariant e t (visited @ todo) (foldl (visitPath e) st todo)"
proof (induction todo arbitrary: visited st)
  case Nil
  then show ?case by simp
next
  case (Cons c todo)
  have "passInvariant e t (visited @ [c]) (visitPath e st c)"
    using Cons.prems by (rule invariant_step)
  moreover have "subpaths t = (visited @ [c]) @ todo" using Cons.prems(2) by simp
  ultimately have "passInvariant e t ((visited @ [c]) @ todo)
      (foldl (visitPath e) (visitPath e st c) todo)" by (rule Cons.IH)
  then show ?case by simp
qed

lemma invariant_final: "passInvariant e t (subpaths t) (traverseProgram e t)"
proof -
  have "passInvariant e t ([] @ subpaths t)
      (foldl (visitPath e) (initialState t) (subpaths t))"
    by (rule invariant_fold [OF invariant_initial]) simp
  then show ?thesis by (simp add: traverseProgram_def)
qed

section \<open>The result of the pass\<close>

subsection \<open>The result of the traversal\<close>

lemma accepted_call: "isAcceptedCandidate e t a \<Longrightarrow> isCallExpression t a \<and> isZodCallAt t a"
  by (simp add: isAcceptedCandidate_def)

lemma accepted_below_zod:
  "isCallExpression t a \<Longrightarrow> isZodCallAt t a \<Longrightarrow> strict_prefix a q \<Longrightarrow>
     \<not> isAcceptedCandidate e t q"
  by (auto simp: isAcceptedCandidate_def isNestedInZodCall_iff)

lemma call_not_root: "ntype_of t = Program \<Longrightarrow> isCallExpression t p \<Longrightarrow> p \<noteq> []"
  by (auto simp: isCallExpression_def type_at_def)

lemma final_prog:
  "prog (traverseProgram e t)
     = withReferences (referenceOf e t (hoistedSchemas (traverseProgram e t))) [] t"
proof -
  let ?h = "hoistedSchemas (traverseProgram e t)"
  have "sitesOf e t (set (subpaths t)) ?h a = referenceOf e t ?h a" for a
    by (auto simp: sitesOf_def referenceOf_def set_subpaths isAcceptedCandidate_def
        isCallExpression_def type_at_def)
  then have "withReferences (sitesOf e t (set (subpaths t)) ?h) [] t
      = withReferences (referenceOf e t ?h) [] t"
    by (intro withReferences_cong(1)) simp
  then show ?thesis using invariant_prog [OF invariant_final, of e t] by simp
qed

lemma final_registered:
  assumes "isAcceptedCandidate e t a"
  shows "\<exists>x. referenceOf e t (hoistedSchemas (traverseProgram e t)) a = Some x"
proof -
  have "a \<in> set (subpaths t)"
    using assms by (auto simp: set_subpaths isAcceptedCandidate_def isCallExpression_def type_at_def)
  then have "canonicalForm e t a \<in> fst ` set (hoistedSchemas (traverseProgram e t))"
    using invariant_registered [OF invariant_final _ assms] by simp
  then obtain x where "map_of (hoistedSchemas (traverseProgram e t)) (canonicalForm e t a) = Some x"
    by (auto simp only: map_of_in_fst)
  then show ?thesis using assms by (simp add: referenceOf_def)
qed

lemma referenceOf_accepted:
  "referenceOf e t h a \<noteq> None \<Longrightarrow> isAcceptedCandidate e t a"
  by (simp add: referenceOf_def split: if_splits)

lemma final_at_candidate:
  assumes "isAcceptedCandidate e t a"
  shows "\<exists>x. map_of (hoistedSchemas (traverseProgram e t)) (canonicalForm e t a) = Some x
           \<and> node_at (prog (traverseProgram e t)) a = Some (t_identifier x)"
proof -
  let ?r = "referenceOf e t (hoistedSchemas (traverseProgram e t))"
  obtain x where x: "?r a = Some x" using final_registered [OF assms] by blast
  have "\<forall>q'. strict_prefix q' a \<longrightarrow> ?r ([] @ q') = None"
  proof (intro allI impI, rule ccontr)
    fix q' assume sp: "strict_prefix q' a" and "?r ([] @ q') \<noteq> None"
    then have "isAcceptedCandidate e t q'" using referenceOf_accepted [of e t _ q'] by simp
    then show False using accepted_below_zod [OF _ _ sp, of t e] assms
      by (simp add: accepted_call)
  qed
  then have at: "node_at (withReferences ?r [] t) a
      = map_option (withReferences ?r ([] @ a)) (node_at t a)"
    by (rule withReferences_node_at)
  obtain n where n: "node_at t a = Some n"
    using assms by (auto simp: isAcceptedCandidate_def isCallExpression_def type_at_def)
  have "withReferences ?r a n = t_identifier x" using x by (cases n) simp
  then have "node_at (prog (traverseProgram e t)) a = Some (t_identifier x)"
    using at n by (simp add: final_prog)
  moreover have "map_of (hoistedSchemas (traverseProgram e t)) (canonicalForm e t a) = Some x"
    using x assms by (simp add: referenceOf_def)
  ultimately show ?thesis by blast
qed

lemma final_frame:
  assumes "\<forall>a. isAcceptedCandidate e t a \<longrightarrow> \<not> prefix a p \<and> \<not> prefix p a"
  shows "node_at (prog (traverseProgram e t)) p = node_at t p"
proof -
  let ?r = "referenceOf e t (hoistedSchemas (traverseProgram e t))"
  have none: "?r a = None" if "prefix a p \<or> prefix p a" for a
    using that assms referenceOf_accepted [of e t _ a] by blast
  have "\<forall>q'. strict_prefix q' p \<longrightarrow> ?r ([] @ q') = None"
    using none by (simp add: strict_prefix_def)
  then have at: "node_at (withReferences ?r [] t) p
      = map_option (withReferences ?r ([] @ p)) (node_at t p)"
    by (rule withReferences_node_at)
  have "withReferences ?r p n = n" for n
    by (rule withReferences_id(1)) (simp add: none)
  then show ?thesis using at by (cases "node_at t p") (simp_all add: final_prog)
qed

text \<open>Nothing changes in a call rooted at \<^verbatim>\<open>z\<close> that is neither nested nor accepted.\<close>

lemma zod_call_frame:
  assumes "isCallExpression t p" and "isZodCallAt t p"
    and "\<not> isNestedInZodCall t p" and "\<not> isAcceptedCandidate e t p"
  shows "node_at (prog (traverseProgram e t)) p = node_at t p"
proof (rule final_frame, intro allI impI conjI notI)
  fix a assume a: "isAcceptedCandidate e t a"
  {
    assume "prefix a p"
    with assms(4) a have "strict_prefix a p" by (auto simp: strict_prefix_def)
    then have "isNestedInZodCall t p"
      using accepted_call [OF a] by (auto simp: isNestedInZodCall_iff)
    with assms(3) show False by simp
  }
  {
    assume "prefix p a"
    with assms(4) a have "strict_prefix p a" by (auto simp: strict_prefix_def)
    from accepted_below_zod [OF assms(1,2) this] a show False by simp
  }
qed

lemma final_root:
  assumes "ntype_of t = Program"
  shows "prog (traverseProgram e t) = Node Program (children (prog (traverseProgram e t)))"
    and "children (prog (traverseProgram e t))
      = withReferencesList (referenceOf e t (hoistedSchemas (traverseProgram e t))) [] 0
          (children t)"
proof -
  let ?r = "referenceOf e t (hoistedSchemas (traverseProgram e t))"
  obtain cs where t: "t = Node Program cs" using assms by (cases t) simp
  have "?r [] = None"
    by (simp add: referenceOf_def isAcceptedCandidate_def isCallExpression_def type_at_def t)
  then have "withReferences ?r [] t = Node Program (withReferencesList ?r [] 0 cs)"
    by (simp add: t)
  then show "prog (traverseProgram e t) = Node Program (children (prog (traverseProgram e t)))"
    and "children (prog (traverseProgram e t)) = withReferencesList ?r [] 0 (children t)"
    by (simp_all add: final_prog t)
qed

lemma output_shape:
  assumes "ntype_of t = Program"
  shows "hoistZodSchema e t
     = Node Program (map variableDeclaration (schemasToHoist (traverseProgram e t))
         @ children (prog (traverseProgram e t)))"
  using assms final_root(1) [OF assms, of e]
  by (simp add: hoistZodSchema_def Let_def)

lemma output_node_at:
  assumes "ntype_of t = Program" and "p \<noteq> []"
  shows "node_at (hoistZodSchema e t)
           (shiftPath (length (schemasToHoist (traverseProgram e t))) p)
       = node_at (prog (traverseProgram e t)) p"
proof -
  obtain i r where p: "p = i # r" using assms(2) by (cases p) auto
  let ?d = "map variableDeclaration (schemasToHoist (traverseProgram e t))"
  let ?b = "children (prog (traverseProgram e t))"
  have "node_at (Node Program (?d @ ?b)) ((i + length ?d) # r) = node_at (Node Program ?b) (i # r)"
    by (simp add: nth_append)
  then show ?thesis
    using output_shape [OF assms(1), of e] final_root(1) [OF assms(1), of e]
    by (simp add: p)
qed

lemma final_not_reference:
  assumes "isCallExpression t p" and "\<not> isAcceptedCandidate e t p"
  shows "node_at (prog (traverseProgram e t)) p \<noteq> Some (t_identifier x)"
proof -
  let ?r = "referenceOf e t (hoistedSchemas (traverseProgram e t))"
  obtain n where n: "node_at t p = Some n" "ntype_of n = CallExpression"
    using assms(1) by (auto simp: isCallExpression_def type_at_def)
  have rp: "?r p = None" using assms(2) by (simp add: referenceOf_def)
  show ?thesis
  proof (cases "\<exists>a. strict_prefix a p \<and> ?r ([] @ a) \<noteq> None")
    case True
    then obtain a where "strict_prefix a p" "?r ([] @ a) \<noteq> None" by blast
    then have "node_at (withReferences ?r [] t) p = None"
      by (rule withReferences_node_at_below)
    then show ?thesis by (simp add: final_prog)
  next
    case False
    then have "\<forall>q'. strict_prefix q' p \<longrightarrow> ?r ([] @ q') = None" by blast
    then have "node_at (withReferences ?r [] t) p
        = map_option (withReferences ?r ([] @ p)) (node_at t p)"
      by (rule withReferences_node_at)
    then have "node_at (prog (traverseProgram e t)) p = Some (withReferences ?r p n)"
      using n by (simp add: final_prog)
    moreover have "ntype_of (withReferences ?r p n) = CallExpression"
      using rp n(2) by (simp add: withReferences_type)
    ultimately show ?thesis by (auto simp: t_identifier_def)
  qed
qed

lemma hoistAt_uids:
  "freshNames e \<Longrightarrow> distinct (uids st) \<Longrightarrow> distinct (uids (hoistAt e p n st))"
  by (auto simp: hoistAt_def freshNames_def Let_def split: option.splits)

lemma visitPath_uids:
  "freshNames e \<Longrightarrow> distinct (uids st) \<Longrightarrow> distinct (uids (visitPath e st p))"
  by (auto simp: visitPath_def callExpressionVisitor_def Let_def hoistAt_uids
      split: option.splits)

lemma foldl_visitPath_uids:
  "freshNames e \<Longrightarrow> distinct (uids st) \<Longrightarrow> distinct (uids (foldl (visitPath e) st ps))"
  by (induction ps arbitrary: st) (simp_all add: visitPath_uids)

lemma final_names_distinct:
  assumes "freshNames e"
  shows "distinct (map fst (schemasToHoist (traverseProgram e t)))"
proof -
  have "distinct (uids (traverseProgram e t))"
    unfolding traverseProgram_def
    by (rule foldl_visitPath_uids [OF assms]) (simp add: initialState_def)
  then show ?thesis using invariant_uids [OF invariant_final, of e t] by simp
qed

lemma declaredName_variableDeclaration [simp]:
  "declaredName (variableDeclaration d) = Some (fst d)"
  by (simp add: variableDeclaration_def t_identifier_def)

lemma count_declarations:
  assumes "distinct (map fst ds)" and "(x, n) \<in> set ds"
  shows "length (filter (\<lambda>s. declaredName s = Some x) (map variableDeclaration ds)) = 1"
proof -
  have "length (filter (\<lambda>s. declaredName s = Some x) (map variableDeclaration ds))
      = length (filter (\<lambda>y. y = x) (map fst ds))"
    by (induction ds) simp_all
  also have "\<dots> = card ({y. y = x} \<inter> set (map fst ds))"
    using assms(1) by (rule distinct_length_filter)
  also have "{y. y = x} \<inter> set (map fst ds) = {x}"
    using assms(2) by force
  finally show ?thesis by simp
qed

section \<open>The pass on its own output\<close>

subsection \<open>Shifted paths\<close>

lemma shiftPath_append: "p \<noteq> [] \<Longrightarrow> shiftPath k (p @ r) = shiftPath k p @ r"
  by (cases p) simp_all

lemma shiftPath_butlast: "butlast (shiftPath k p) = shiftPath k (butlast p)"
  by (cases p) simp_all

lemma shiftPath_Nil [simp]: "shiftPath k p = [] \<longleftrightarrow> p = []"
  by (cases p) simp_all

lemma shiftPath_inj [simp]: "shiftPath k a = shiftPath k b \<longleftrightarrow> a = b"
  by (cases a; cases b) simp_all

lemma shiftPath_prefix [simp]: "prefix (shiftPath k a) (shiftPath k b) \<longleftrightarrow> prefix a b"
  by (cases a; cases b) simp_all

lemma shiftPath_strict_prefix [simp]:
  "strict_prefix (shiftPath k a) (shiftPath k b) \<longleftrightarrow> strict_prefix a b"
  by (simp add: strict_prefix_def)

lemma prefix_shiftPath:
  "prefix a (shiftPath k b) \<Longrightarrow> \<exists>a0. a = shiftPath k a0 \<and> prefix a0 b"
proof (cases a)
  case Nil
  then have "a = shiftPath k [] \<and> prefix [] b" by simp
  then show ?thesis by blast
next
  case (Cons j r)
  assume "prefix a (shiftPath k b)"
  with Cons obtain i s where b: "b = i # s" and j: "j = i + k" and rs: "prefix r s"
    by (cases b) auto
  then have "a = shiftPath k (i # r) \<and> prefix (i # r) b" using Cons by simp
  then show ?thesis by blast
qed

lemma strict_prefix_shiftPath:
  "strict_prefix a (shiftPath k b) \<Longrightarrow> \<exists>a0. a = shiftPath k a0 \<and> strict_prefix a0 b"
  using prefix_shiftPath [of a k b] by (auto simp: strict_prefix_def)

lemma getOutermostCall_shift:
  "(\<forall>q. prefix q c \<longrightarrow> type_at t' (shiftPath k q) = type_at t q) \<Longrightarrow>
     getOutermostCall t' (shiftPath k c) = shiftPath k (getOutermostCall t c)"
proof (induction t c rule: getOutermostCall.induct)
  case (1 t c)
  have b1: "prefix (butlast c) c" by (rule prefixeq_butlast)
  have b2: "prefix (butlast (butlast c)) c"
    by (meson prefix_order.order_trans prefixeq_butlast)
  have m: "isMemberExpression t' (butlast (shiftPath k c)) = isMemberExpression t (butlast c)"
    using 1(2) b1 by (simp add: isMemberExpression_def shiftPath_butlast)
  have cl: "isCallExpression t' (butlast (butlast (shiftPath k c)))
      = isCallExpression t (butlast (butlast c))"
    using 1(2) b2 by (simp add: isCallExpression_def shiftPath_butlast)
  show ?case
  proof (cases "c \<noteq> [] \<and> isMemberExpression t (butlast c)
         \<and> butlast c \<noteq> [] \<and> isCallExpression t (butlast (butlast c))")
    case True
    have "\<forall>q. prefix q (butlast (butlast c)) \<longrightarrow> type_at t' (shiftPath k q) = type_at t q"
      using 1(2) b2 by (meson prefix_order.order_trans)
    then have "getOutermostCall t' (shiftPath k (butlast (butlast c)))
        = shiftPath k (getOutermostCall t (butlast (butlast c)))"
      using 1(1) True by simp
    moreover have "getOutermostCall t c = getOutermostCall t (butlast (butlast c))"
      using True by (subst getOutermostCall.simps) simp
    moreover have "getOutermostCall t' (shiftPath k c)
        = getOutermostCall t' (butlast (butlast (shiftPath k c)))"
      using True m cl by (subst getOutermostCall.simps) (simp add: shiftPath_butlast)
    ultimately show ?thesis by (simp add: shiftPath_butlast)
  next
    case False
    then have "getOutermostCall t c = c" by (subst getOutermostCall.simps) auto
    moreover have "getOutermostCall t' (shiftPath k c) = shiftPath k c"
      using False m cl by (subst getOutermostCall.simps) (auto simp: shiftPath_butlast)
    ultimately show ?thesis by simp
  qed
qed

lemma bindingVerdict_shift:
  "p \<noteq> [] \<Longrightarrow>
     bindingVerdict (shiftPath k p) (map_option (shiftBinding k) b) = bindingVerdict p b"
  by (cases b) (simp_all add: bindingVerdict_def shiftBinding_def isImportBinding_def)

subsection \<open>A program without accepted candidate\<close>

lemma no_candidates_fixpoint:
  assumes "\<forall>p. \<not> isAcceptedCandidate e t p"
  shows "schemasToHoist (traverseProgram e t) = []" and "hoistZodSchema e t = t"
proof -
  have "map fst (hoistedSchemas (traverseProgram e t)) = []"
    using invariant_order [OF invariant_final, of e t] assms
    by (simp add: firstOccurrences_def)
  then have "hoistedSchemas (traverseProgram e t) = []" by simp
  then show q: "schemasToHoist (traverseProgram e t) = []"
    using invariant_map [OF invariant_final, of e t] by simp
  have "withReferences (referenceOf e t (hoistedSchemas (traverseProgram e t))) [] t = t"
    by (rule withReferences_id(1)) (simp add: referenceOf_def assms)
  then have "prog (traverseProgram e t) = t" by (simp add: final_prog)
  then show "hoistZodSchema e t = t" using q by (simp add: hoistZodSchema_def Let_def)
qed



subsection \<open>Nodes that are still in the program after the traversal\<close>

lemma final_present:
  assumes "node_at (prog (traverseProgram e t)) p \<noteq> None" and "strict_prefix a p"
  shows "\<not> isAcceptedCandidate e t a"
proof
  let ?r = "referenceOf e t (hoistedSchemas (traverseProgram e t))"
  assume "isAcceptedCandidate e t a"
  then have "?r ([] @ a) \<noteq> None" using final_registered [of e t a] by auto
  from withReferences_node_at_below [of a p ?r "[]" t, OF assms(2) this]
  show False using assms(1) by (simp add: final_prog)
qed

lemma final_node:
  assumes "\<forall>a. strict_prefix a p \<longrightarrow> \<not> isAcceptedCandidate e t a"
  shows "node_at (prog (traverseProgram e t)) p
     = map_option (withReferences (referenceOf e t (hoistedSchemas (traverseProgram e t))) p)
         (node_at t p)"
proof -
  let ?r = "referenceOf e t (hoistedSchemas (traverseProgram e t))"
  have "\<forall>q'. strict_prefix q' p \<longrightarrow> ?r ([] @ q') = None"
    using assms by (simp add: referenceOf_def)
  from withReferences_node_at [OF this, of t] show ?thesis by (simp add: final_prog)
qed

lemma final_type:
  assumes "\<forall>a. prefix a p \<longrightarrow> \<not> isAcceptedCandidate e t a"
  shows "type_at (prog (traverseProgram e t)) p = type_at t p"
proof -
  let ?r = "referenceOf e t (hoistedSchemas (traverseProgram e t))"
  have "?r p = None" using assms by (simp add: referenceOf_def)
  moreover have "node_at (prog (traverseProgram e t)) p
      = map_option (withReferences ?r p) (node_at t p)"
    by (rule final_node) (use assms in \<open>auto simp: strict_prefix_def\<close>)
  ultimately show ?thesis
    by (cases "node_at t p") (simp_all add: type_at_def withReferences_type)
qed

lemma final_reference_name:
  assumes "referenceOf e t (hoistedSchemas (traverseProgram e t)) a = Some x"
  shows "x \<noteq> ''z''"
proof -
  from assms have "map_of (hoistedSchemas (traverseProgram e t)) (canonicalForm e t a) = Some x"
    by (simp add: referenceOf_def split: if_splits)
  then have "(canonicalForm e t a, x) \<in> set (hoistedSchemas (traverseProgram e t))"
    by (rule map_of_SomeD)
  then obtain d where "d \<in> set (schemasToHoist (traverseProgram e t))" "x = fst d"
    unfolding invariant_map [OF invariant_final] by auto
  then show ?thesis by (simp add: invariant_names [OF invariant_final])
qed

lemma final_zod_back:
  assumes "\<forall>a. strict_prefix a p \<longrightarrow> \<not> isAcceptedCandidate e t a"
    and "isZodCallAt (prog (traverseProgram e t)) p"
  shows "isZodCallAt t p"
proof -
  let ?r = "referenceOf e t (hoistedSchemas (traverseProgram e t))"
  from assms(2) final_node [OF assms(1)]
  obtain m where m: "node_at t p = Some m" "isZodCall (withReferences ?r p m)"
    by (auto simp: isZodCallAt_def split: option.splits)
  have "isZodCall m"
    by (rule withReferences_zod [OF _ m(2)]) (use final_reference_name in blast)
  then show ?thesis using m(1) by (simp add: isZodCallAt_def)
qed

lemma final_zod_frame:
  assumes "\<forall>a. prefix a p \<longrightarrow> \<not> isAcceptedCandidate e t a"
    and "isCallExpression t p" and "isZodCallAt t p"
  shows "node_at (prog (traverseProgram e t)) p = node_at t p"
proof (rule final_frame, intro allI impI conjI notI)
  fix a assume a: "isAcceptedCandidate e t a"
  {
    assume "prefix a p"
    with assms(1) a show False by blast
  }
  {
    assume "prefix p a"
    moreover have "p \<noteq> a" using assms(1) a by auto
    ultimately have "strict_prefix p a" by (simp add: strict_prefix_def)
    from accepted_below_zod [OF assms(2,3) this] a show False by simp
  }
qed

lemma final_call_not_accepted:
  assumes "type_at (prog (traverseProgram e t)) p = Some CallExpression" and "prefix a p"
  shows "\<not> isAcceptedCandidate e t a"
proof (cases "a = p")
  case True
  show ?thesis
  proof
    assume "isAcceptedCandidate e t a"
    then obtain x where "node_at (prog (traverseProgram e t)) a = Some (t_identifier x)"
      using final_at_candidate by blast
    with assms(1) True show False by (simp add: type_at_def t_identifier_def)
  qed
next
  case False
  with assms(2) have "strict_prefix a p" by (simp add: strict_prefix_def)
  moreover have "node_at (prog (traverseProgram e t)) p \<noteq> None"
    using assms(1) by (auto simp: type_at_def)
  ultimately show ?thesis by (intro final_present)
qed

subsection \<open>The output has no accepted candidate\<close>

lemma declaration_call:
  assumes "type_at (variableDeclaration d) r = Some CallExpression"
  shows "\<exists>r'. r = 0 # 1 # r'"
proof -
  let ?decl = "Node VariableDeclarator [t_identifier (fst d), snd d]"
  from assms obtain a r1 where r: "r = a # r1"
    by (cases r) (auto simp: variableDeclaration_def type_at_def)
  from assms r have a: "a = 0" and t1: "type_at ?decl r1 = Some CallExpression"
    by (auto simp: variableDeclaration_def type_at_def split: if_splits)
  from t1 obtain b r2 where r1: "r1 = b # r2"
    by (cases r1) (auto simp: type_at_def)
  from t1 r1 have b: "b < 2" and t2: "type_at ([t_identifier (fst d), snd d] ! b) r2
      = Some CallExpression"
    by (auto simp: type_at_def split: if_splits)
  have "b \<noteq> 0"
  proof
    assume "b = 0"
    with t2 have "type_at (t_identifier (fst d)) r2 = Some CallExpression" by simp
    then show False by (cases r2) (auto simp: t_identifier_def type_at_def)
  qed
  with b have "b = 1" by simp
  with r r1 a show ?thesis by simp
qed

lemma declaration_no_candidate:
  assumes "ntype_of t = Program" and "i < length (schemasToHoist (traverseProgram e t))"
  shows "\<not> isAcceptedCandidate e' (hoistZodSchema e t) (i # r)"
proof
  let ?out = "hoistZodSchema e t"
  let ?q = "schemasToHoist (traverseProgram e t)"
  let ?d = "?q ! i"
  assume acc: "isAcceptedCandidate e' ?out (i # r)"
  have d: "?d \<in> set ?q" using assms(2) by simp
  then obtain a where a: "isAcceptedCandidate e t a" "node_at t a = Some (snd ?d)"
    using invariant_inits [OF invariant_final] by blast
  have init_call: "ntype_of (snd ?d) = CallExpression" and init_zod: "isZodCall (snd ?d)"
    using a by (auto simp: isAcceptedCandidate_def isCallExpression_def isZodCallAt_def
        type_at_def)
  have at: "node_at ?out (i # r') = node_at (variableDeclaration ?d) r'" for r'
    using assms(2) by (simp add: output_shape [OF assms(1)] nth_append)
  have root: "type_at ?out [] = Some Program"
    by (simp add: output_shape [OF assms(1)] type_at_def)
  from acc have "type_at (variableDeclaration ?d) r = Some CallExpression"
    by (simp add: isAcceptedCandidate_def isCallExpression_def type_at_def at)
  then obtain r' where r: "r = 0 # 1 # r'" using declaration_call by blast
  have init: "node_at ?out [i, 0, 1] = Some (snd ?d)"
    by (simp add: at variableDeclaration_def)
  show False
  proof (cases "r' = []")
    case True
    from acc have "getFunctionParent ?out [i, 0, 1] \<noteq> None"
      by (simp add: isAcceptedCandidate_def r True)
    then obtain f where f: "strict_prefix f [i, 0, 1]" "isFunction ?out f"
      unfolding getFunctionParent_iff by blast
    from f(1) have "f = [] \<or> f = [i] \<or> f = [i, 0]"
      by (auto simp: strict_prefix_def prefix_Cons)
    then show False
      using f(2) root
      by (auto simp: isFunction_def type_at_def at variableDeclaration_def)
  next
    case False
    then have "strict_prefix [i, 0, 1] (i # r)" by (simp add: r strict_prefix_def)
    moreover have "isCallExpression ?out [i, 0, 1] \<and> isZodCallAt ?out [i, 0, 1]"
      using init init_call init_zod
      by (simp add: isCallExpression_def isZodCallAt_def type_at_def)
    ultimately have "isNestedInZodCall ?out (i # r)"
      unfolding isNestedInZodCall_iff by blast
    with acc show False by (simp add: isAcceptedCandidate_def)
  qed
qed

lemma body_no_candidate:
  assumes prog: "ntype_of t = Program"
    and agree: "scopesAgree e t e' (hoistZodSchema e t)
        (length (schemasToHoist (traverseProgram e t)))"
    and ne: "p \<noteq> []"
  shows "\<not> isAcceptedCandidate e' (hoistZodSchema e t)
            (shiftPath (length (schemasToHoist (traverseProgram e t))) p)"
proof
  let ?out = "hoistZodSchema e t"
  let ?T = "prog (traverseProgram e t)"
  let ?k = "length (schemasToHoist (traverseProgram e t))"
  let ?P = "shiftPath ?k p"
  assume acc: "isAcceptedCandidate e' ?out ?P"
  have o_node: "node_at ?out (shiftPath ?k q) = node_at ?T q" if "q \<noteq> []" for q
    using output_node_at [OF prog that] .
  have o_type: "type_at ?out (shiftPath ?k q) = type_at ?T q" for q
  proof (cases "q = []")
    case True
    have "type_at ?out [] = Some Program"
      by (simp add: output_shape [OF prog] type_at_def)
    moreover have "type_at ?T [] = Some Program"
    proof -
      obtain cs where "?T = Node Program cs" using final_root(1) [OF prog, of e] by blast
      then show ?thesis by (simp add: type_at_def)
    qed
    ultimately show ?thesis using True by simp
  next
    case False
    then show ?thesis by (simp add: type_at_def o_node)
  qed
  have callT: "type_at ?T p = Some CallExpression"
    using acc o_type [of p] by (simp add: isAcceptedCandidate_def isCallExpression_def)
  have noacc: "\<not> isAcceptedCandidate e t a" if "prefix a p" for a
    using final_call_not_accepted [OF callT that] .
  have tyT: "type_at ?T q = type_at t q" if "prefix q p" for q
    by (rule final_type) (use that noacc in \<open>meson prefix_order.order_trans\<close>)
  have tys: "type_at ?out (shiftPath ?k q) = type_at t q" if "prefix q p" for q
    using o_type [of q] tyT [OF that] by simp
  have call_t: "isCallExpression t p"
    using callT tyT [of p] by (simp add: isCallExpression_def)
  have zodT: "isZodCallAt ?T p"
    using acc o_node [OF ne] by (simp add: isAcceptedCandidate_def isZodCallAt_def)
  have above: "\<forall>a. strict_prefix a p \<longrightarrow> \<not> isAcceptedCandidate e t a"
    using noacc by (simp add: strict_prefix_def)
  have zod_t: "isZodCallAt t p"
    using above zodT by (rule final_zod_back)
  have same: "node_at ?T p = node_at t p"
    by (rule final_zod_frame [OF _ call_t zod_t]) (use noacc in blast)
  then have out_same: "node_at ?out ?P = node_at t p" using o_node [OF ne] by simp
  obtain n where n: "node_at t p = Some n"
    using call_t by (auto simp: isCallExpression_def type_at_def)
  have nested_t: "\<not> isNestedInZodCall t p"
  proof
    assume "isNestedInZodCall t p"
    then obtain a where a: "strict_prefix a p" "isCallExpression t a" "isZodCallAt t a"
      unfolding isNestedInZodCall_iff by blast
    have ane: "a \<noteq> []" using a(2) prog by (auto simp: isCallExpression_def type_at_def)
    have pa: "prefix a p" using a(1) by (simp add: strict_prefix_def)
    have "node_at ?T a = node_at t a"
      by (rule final_zod_frame [OF _ a(2,3)])
         (use noacc pa in \<open>meson prefix_order.order_trans\<close>)
    then have "node_at ?out (shiftPath ?k a) = node_at t a" using o_node [OF ane] by simp
    then have "isCallExpression ?out (shiftPath ?k a) \<and> isZodCallAt ?out (shiftPath ?k a)"
      using a(2,3) by (simp add: isCallExpression_def isZodCallAt_def type_at_def)
    moreover have "strict_prefix (shiftPath ?k a) ?P" using a(1) by simp
    ultimately have "isNestedInZodCall ?out ?P" unfolding isNestedInZodCall_iff by blast
    with acc show False by (simp add: isAcceptedCandidate_def)
  qed
  have outer_t: "getOutermostCall t p = p"
  proof -
    have "getOutermostCall ?out ?P = shiftPath ?k (getOutermostCall t p)"
      by (rule getOutermostCall_shift) (use tys in blast)
    moreover have "getOutermostCall ?out ?P = ?P"
      using acc by (simp add: isAcceptedCandidate_def)
    ultimately show ?thesis by simp
  qed
  have fun_t: "getFunctionParent t p \<noteq> None"
  proof -
    from acc have "getFunctionParent ?out ?P \<noteq> None" by (simp add: isAcceptedCandidate_def)
    then obtain f where f: "strict_prefix f ?P" "isFunction ?out f"
      unfolding getFunctionParent_iff by blast
    from strict_prefix_shiftPath [OF f(1)]
    obtain f0 where f0: "f = shiftPath ?k f0" "strict_prefix f0 p" by blast
    then have "isFunction t f0"
      using f(2) tys [of f0] by (simp add: isFunction_def strict_prefix_def)
    with f0(2) show ?thesis unfolding getFunctionParent_iff by blast
  qed
  have bind: "getBinding e' (shiftPath ?k q) name
      = map_option (shiftBinding ?k) (getBinding e q name)"
    if "q \<noteq> []" "node_at t q \<noteq> None" "node_at ?out (shiftPath ?k q) = node_at t q"
      "name = ''z'' \<or> type_at t q = Some (Identifier name)" for q name
    using agree [unfolded scopesAgree_def, rule_format, of q name,
        OF conjI [OF that(1) conjI [OF that(2) conjI [OF that(3) that(4)]]]] .
  have glob_t: "isGlobalZodReference e t p"
  proof -
    from acc have g: "isGlobalZodReference e' ?out ?P" by (simp add: isAcceptedCandidate_def)
    have "getBinding e' ?P ''z'' = map_option (shiftBinding ?k) (getBinding e p ''z'')"
      by (rule bind) (use ne n out_same in auto)
    moreover from g have root: "isZodIdentifier (getChainRoot n)"
      by (simp add: isGlobalZodReference_def out_same n split: if_splits)
    moreover from g root
    have "case getBinding e' ?P ''z'' of None \<Rightarrow> True | Some b \<Rightarrow> b_scope b = []"
      by (simp add: isGlobalZodReference_def out_same n)
    ultimately have "case getBinding e p ''z'' of None \<Rightarrow> True | Some b \<Rightarrow> b_scope b = []"
      by (cases "getBinding e p ''z''") (simp_all add: shiftBinding_def)
    with root show ?thesis by (simp add: isGlobalZodReference_def n)
  qed
  have safe_t: "canSafelyHoist e t p"
  proof -
    have "canSafelyHoist e' ?out ?P = canSafelyHoist e t p"
    proof (rule canSafelyHoist_transfer [OF n])
      show "node_at ?out ?P = Some n" using out_same n by simp
    next
      fix r name assume r: "r \<noteq> []" "type_at n r = Some (Identifier name)"
      have ty: "type_at t (p @ r) = Some (Identifier name)"
        using r(2) n by (simp add: type_at_append)
      have sh: "shiftPath ?k (p @ r) = ?P @ r" using ne by (rule shiftPath_append)
      have "node_at ?out (?P @ r) = node_at t (p @ r)"
        using out_same by (simp add: node_at_append)
      then have b3: "node_at ?out (shiftPath ?k (p @ r)) = node_at t (p @ r)"
        by (simp only: sh)
      have b1: "p @ r \<noteq> []" using ne by simp
      have b2: "node_at t (p @ r) \<noteq> None" using ty by (auto simp: type_at_def)
      have b4: "name = ''z'' \<or> type_at t (p @ r) = Some (Identifier name)" using ty by simp
      have "getBinding e' (shiftPath ?k (p @ r)) name
          = map_option (shiftBinding ?k) (getBinding e (p @ r) name)"
        using b1 b2 b3 b4 by (rule bind)
      then show "bindingVerdict ?P (getBinding e' (?P @ r) name)
          = bindingVerdict p (getBinding e (p @ r) name)"
        using ne by (simp add: sh bindingVerdict_shift)
    qed
    with acc show ?thesis by (simp add: isAcceptedCandidate_def)
  qed
  have "isAcceptedCandidate e t p"
    using call_t zod_t outer_t nested_t glob_t fun_t safe_t
    by (simp add: isAcceptedCandidate_def)
  with noacc [of p] show False by simp
qed

lemma scopesAgree_carried:
  "scopesAgree e t (e\<lparr>getBinding := carriedBindings k (getBinding e)\<rparr>) t' k"
  unfolding scopesAgree_def
proof (intro allI impI)
  fix p name
  assume "p \<noteq> [] \<and> node_at t p \<noteq> None \<and> node_at t' (shiftPath k p) = node_at t p
      \<and> (name = ''z'' \<or> type_at t p = Some (Identifier name))"
  then obtain i r where "p = i # r" by (cases p) auto
  then show "getBinding (e\<lparr>getBinding := carriedBindings k (getBinding e)\<rparr>) (shiftPath k p) name
      = map_option (shiftBinding k) (getBinding e p name)"
    by (simp add: carriedBindings_def)
qed

section \<open>Properties of the safety analysis and of the chain resolver\<close>

text \<open>
  Claim C1. Take a candidate at \<open>p\<close> and an identifier \<open>q\<close> below it that is not named
  \<^verbatim>\<open>z\<close>, is not the name of a non-computed property access and is not a non-computed
  object key, and that has a binding \<open>b\<close>. The analysis accepts the reference exactly when
  the declaring node of \<open>b\<close> lies below the candidate, or else \<open>b\<close> belongs to the program
  scope and is declared by an import specifier; so a binding of the program scope that is
  no import, and every binding of another scope, is rejected. A candidate that the
  analysis finds safe has no rejected reference, and the visitor hoists nothing when the
  candidate has one.
\<close>

theorem safety_classification:
  assumes "q \<in> set (descendants t p)"
    and "type_at t q = Some (Identifier name)"
    and "name \<noteq> ''z''" and "\<not> isPropertyName t q" and "\<not> isObjectKey t q"
    and "getBinding e q name = Some b"
  shows "((\<not> disqualifies e t p q)
            = (strict_prefix p (b_path b) \<or> (b_scope b = [] \<and> isImportBinding b)))
       \<and> (canSafelyHoist e t p \<longrightarrow> \<not> disqualifies e t p q)
       \<and> (\<forall>st c. prog st = t \<and> getOutermostCall t c = p \<and> disqualifies e t p q
             \<longrightarrow> nothingHoisted st (callExpressionVisitor e c st))"
proof (intro conjI allI impI)
  show "(\<not> disqualifies e t p q)
          = (strict_prefix p (b_path b) \<or> (b_scope b = [] \<and> isImportBinding b))"
    using assms(2-6) by (rule disqualifies_bound)
  show "\<not> disqualifies e t p q" if "canSafelyHoist e t p"
    using that assms(1) by (simp add: canSafelyHoist_iff)
  show "nothingHoisted st (callExpressionVisitor e c st)"
    if "prog st = t \<and> getOutermostCall t c = p \<and> disqualifies e t p q" for st c
  proof (rule ccontr)
    assume "\<not> nothingHoisted st (callExpressionVisitor e c st)"
    then have "canSafelyHoist e (prog st) (getOutermostCall (prog st) c)"
      by (simp add: visitor_filters)
    with that assms(1) show False by (auto simp: canSafelyHoist_iff)
  qed
qed

theorem safety_classification_witness:
  "disqualifies (exampleEnv localBindings) localProgram [0, 2, 0, 0] [0, 2, 0, 0, 1]
   \<and> \<not> canSafelyHoist (exampleEnv localBindings) localProgram [0, 2, 0, 0]
   \<and> nothingHoisted (initialState localProgram)
        (callExpressionVisitor (exampleEnv localBindings) [0, 2, 0, 0]
           (initialState localProgram))
   \<and> canSafelyHoist (exampleEnv importBindings) importProgram [1, 1, 0, 0]
   \<and> \<not> disqualifies (exampleEnv importBindings) importProgram [1, 1, 0, 0] [1, 1, 0, 0, 1]"
proof -
  let ?b = "\<lparr>b_scope = [0], b_path = [0, 1], b_type = Identifier ''minLength''\<rparr>"
  have l1: "[0, 2, 0, 0, 1] \<in> set (descendants localProgram [0, 2, 0, 0])" by code_simp
  have l2: "type_at localProgram [0, 2, 0, 0, 1] = Some (Identifier ''minLength'')"
    by code_simp
  have l3: "''minLength'' \<noteq> ''z''" by simp
  have l4: "\<not> isPropertyName localProgram [0, 2, 0, 0, 1]" by code_simp
  have l5: "\<not> isObjectKey localProgram [0, 2, 0, 0, 1]" by code_simp
  have l6: "getBinding (exampleEnv localBindings) [0, 2, 0, 0, 1] ''minLength'' = Some ?b"
    by (simp add: exampleEnv_def localBindings_def)
  have l7: "prog (initialState localProgram) = localProgram" by (simp add: initialState_def)
  have l8: "getOutermostCall localProgram [0, 2, 0, 0] = [0, 2, 0, 0]" by code_simp
  note local = safety_classification [OF l1 l2 l3 l4 l5 l6]
  have d: "disqualifies (exampleEnv localBindings) localProgram [0, 2, 0, 0] [0, 2, 0, 0, 1]"
    using local by (simp add: isImportBinding_def)
  let ?i = "\<lparr>b_scope = [], b_path = [0, 0], b_type = ImportSpecifier\<rparr>"
  have i1: "[1, 1, 0, 0, 1] \<in> set (descendants importProgram [1, 1, 0, 0])" by code_simp
  have i2: "type_at importProgram [1, 1, 0, 0, 1] = Some (Identifier ''myRefine'')"
    by code_simp
  have i3: "''myRefine'' \<noteq> ''z''" by simp
  have i4: "\<not> isPropertyName importProgram [1, 1, 0, 0, 1]" by code_simp
  have i5: "\<not> isObjectKey importProgram [1, 1, 0, 0, 1]" by code_simp
  have i6: "getBinding (exampleEnv importBindings) [1, 1, 0, 0, 1] ''myRefine'' = Some ?i"
    by (simp add: exampleEnv_def importBindings_def)
  have i7: "canSafelyHoist (exampleEnv importBindings) importProgram [1, 1, 0, 0]" by code_simp
  note import = safety_classification [OF i1 i2 i3 i4 i5 i6]
  show ?thesis using local import d l7 l8 i7 by blast
qed

text \<open>
  Claim C10. An identifier below a candidate that resolves to no binding neither clears
  \<^verbatim>\<open>canHoist\<close> nor stops the traversal, whatever the state; the verdict on the candidate
  is decided by its other nodes alone.
\<close>

theorem free_reference_accepted:
  assumes "type_at t q = Some (Identifier name)"
    and "getBinding e q name = None"
  shows "canHoist (hoistStep e t p s q) = canHoist s
       \<and> stopped (hoistStep e t p s q) = stopped s
       \<and> canSafelyHoist e t p = (\<forall>q'\<in>set (descendants t p) - {q}. \<not> disqualifies e t p q')"
proof -
  have step: "canHoist (hoistStep e t p s q) = canHoist s
      \<and> stopped (hoistStep e t p s q) = stopped s" for s
    using assms by (simp add: hoistStep_def identifierVisitor_def Let_def)
  have "\<not> disqualifies e t p q"
    using step [of freshState] by (simp add: disqualifies_def freshState_def)
  then have "canSafelyHoist e t p = (\<forall>q'\<in>set (descendants t p) - {q}. \<not> disqualifies e t p q')"
    by (auto simp: canSafelyHoist_iff)
  with step show ?thesis by simp
qed

theorem free_reference_accepted_witness:
  "canHoist (hoistStep (exampleEnv noBindings) enumProgram [0, 1, 0, 0] freshState
       [0, 1, 0, 0, 1])
   \<and> \<not> stopped (hoistStep (exampleEnv noBindings) enumProgram [0, 1, 0, 0] freshState
       [0, 1, 0, 0, 1])
   \<and> canSafelyHoist (exampleEnv noBindings) enumProgram [0, 1, 0, 0]"
proof -
  have h1: "type_at enumProgram [0, 1, 0, 0, 1] = Some (Identifier ''allowedTypes'')"
    by code_simp
  have h2: "getBinding (exampleEnv noBindings) [0, 1, 0, 0, 1] ''allowedTypes'' = None"
    by (simp add: exampleEnv_def noBindings_def)
  have h3: "\<forall>q'\<in>set (descendants enumProgram [0, 1, 0, 0]) - {[0, 1, 0, 0, 1]}.
      \<not> disqualifies (exampleEnv noBindings) enumProgram [0, 1, 0, 0] q'"
    by code_simp
  show ?thesis
    using free_reference_accepted [OF h1 h2, of "[0, 1, 0, 0]" freshState] h3 by (simp add: freshState_def)
qed

text \<open>
  Claim C6, evaluated where the source departs from it. In
  \<^verbatim>\<open>function f(x) { return z.a(this, x); }\<close> the sub-traversal enters \<^verbatim>\<open>this\<close> before
  \<^verbatim>\<open>x\<close>. After the handler of \<^verbatim>\<open>this\<close> the candidate is disqualified but the traversal
  has not stopped, and the binding of \<^verbatim>\<open>x\<close> is looked up afterwards: the handler of
  \<^verbatim>\<open>ThisExpression\<close> does not call \<^verbatim>\<open>stop()\<close>, as both rejecting branches of the
  \<^verbatim>\<open>Identifier\<close> handler do.
\<close>

theorem this_does_not_stop_traversal:
  "descendants thisProgram [0, 2, 0, 0]
     = [[0, 2, 0, 0, 0], [0, 2, 0, 0, 0, 0], [0, 2, 0, 0, 0, 1], [0, 2, 0, 0, 1],
        [0, 2, 0, 0, 2]]
   \<and> type_at thisProgram [0, 2, 0, 0, 1] = Some ThisExpression
   \<and> type_at thisProgram [0, 2, 0, 0, 2] = Some (Identifier ''x'')
   \<and> foldl (hoistStep (exampleEnv thisBindings) thisProgram [0, 2, 0, 0]) freshState
        [[0, 2, 0, 0, 0], [0, 2, 0, 0, 0, 0], [0, 2, 0, 0, 0, 1], [0, 2, 0, 0, 1]]
      = \<lparr>canHoist = False, stopped = False, resolved = []\<rparr>
   \<and> safetyTraversal (exampleEnv thisBindings) thisProgram [0, 2, 0, 0]
      = \<lparr>canHoist = False, stopped = True, resolved = [[0, 2, 0, 0, 2]]\<rparr>"
  by code_simp

text \<open>
  Claim C7, evaluated where the source departs from it. In
  \<^verbatim>\<open>function f() { return a[z.string()](); }\<close> the call \<^verbatim>\<open>z.string()\<close> is the computed
  property, not the object, of its parent; \<^verbatim>\<open>getOutermostCall\<close> still moves up to the
  call \<^verbatim>\<open>a[z.string()]()\<close>, since it tests the types of the parent and the grandparent
  only. The pass then leaves the program as it is, while it hoists the same
  \<^verbatim>\<open>z.string()\<close> out of \<^verbatim>\<open>a[z.string()]\<close>.
\<close>

theorem computed_property_steps_up:
  "isCallExpression computedProgram [0, 1, 0, 0, 0, 1]
   \<and> isZodCallAt computedProgram [0, 1, 0, 0, 0, 1]
   \<and> type_at computedProgram [0, 1, 0, 0, 0] = Some (MemberExpression True)
   \<and> getOutermostCall computedProgram [0, 1, 0, 0, 0, 1] = [0, 1, 0, 0]
   \<and> hoistZodSchema (exampleEnv noBindings) computedProgram = computedProgram
   \<and> hoistZodSchema (exampleEnv noBindings) computedProgram2 \<noteq> computedProgram2"
  by code_simp

section \<open>Properties of the whole pass\<close>

lemma exampleEnv_fresh: "freshNames (exampleEnv b)"
proof -
  have le: "length u \<le> length (concat used)" if "u \<in> set used" for u :: string and used
    using that by (induction used) auto
  have "CHR ''_'' # name @ concat used \<notin> set used" for name and used :: "string list"
  proof
    assume "CHR ''_'' # name @ concat used \<in> set used"
    from le [OF this] show False by simp
  qed
  then show ?thesis
    by (simp add: freshNames_def generateUidIdentifier_def exampleEnv_def)
qed

text \<open>
  Claim C2. When the name generator never repeats a name, two accepted candidates of a
  program with the same canonical form are both replaced by an identifier of one and the
  same name, and exactly one of the declarations put in front of the program declares
  that name.
\<close>

theorem identical_candidates_share_declaration:
  assumes "ntype_of t = Program" and "freshNames e"
    and "isAcceptedCandidate e t p" and "isAcceptedCandidate e t q"
    and "canonicalForm e t p = canonicalForm e t q"
  shows "\<exists>x. node_at (hoistZodSchema e t)
                (shiftPath (length (schemasToHoist (traverseProgram e t))) p)
              = Some (t_identifier x)
           \<and> node_at (hoistZodSchema e t)
                (shiftPath (length (schemasToHoist (traverseProgram e t))) q)
              = Some (t_identifier x)
           \<and> length (filter (\<lambda>s. declaredName s = Some x)
                (take (length (schemasToHoist (traverseProgram e t)))
                   (children (hoistZodSchema e t)))) = 1"
proof -
  let ?st = "traverseProgram e t"
  let ?k = "length (schemasToHoist ?st)"
  obtain x where x: "map_of (hoistedSchemas ?st) (canonicalForm e t p) = Some x"
    and px: "node_at (prog ?st) p = Some (t_identifier x)"
    using final_at_candidate [OF assms(3)] by blast
  obtain y where y: "map_of (hoistedSchemas ?st) (canonicalForm e t q) = Some y"
    and qy: "node_at (prog ?st) q = Some (t_identifier y)"
    using final_at_candidate [OF assms(4)] by blast
  have xy: "y = x" using x y assms(5) by simp
  have pne: "p \<noteq> []" "q \<noteq> []"
    using call_not_root [OF assms(1)] accepted_call [OF assms(3)] accepted_call [OF assms(4)]
    by blast+
  have "(canonicalForm e t p, x) \<in> set (hoistedSchemas ?st)" using x by (rule map_of_SomeD)
  then obtain n where n: "(x, n) \<in> set (schemasToHoist ?st)"
    unfolding invariant_map [OF invariant_final] by auto
  have "take ?k (children (hoistZodSchema e t)) = map variableDeclaration (schemasToHoist ?st)"
    by (simp add: output_shape [OF assms(1)])
  then have "length (filter (\<lambda>s. declaredName s = Some x)
      (take ?k (children (hoistZodSchema e t)))) = 1"
    using count_declarations [OF final_names_distinct [OF assms(2)] n] by simp
  then show ?thesis
    using px qy xy output_node_at [OF assms(1) pne(1), of e] output_node_at [OF assms(1) pne(2), of e]
    by auto
qed

theorem identical_candidates_share_declaration_witness:
  "\<exists>x. node_at (hoistZodSchema (exampleEnv mixedBindings) mixedProgram) [2, 1, 0, 0]
          = Some (t_identifier x)
     \<and> node_at (hoistZodSchema (exampleEnv mixedBindings) mixedProgram) [3, 1, 0, 0]
          = Some (t_identifier x)
     \<and> length (filter (\<lambda>s. declaredName s = Some x)
          (take 1 (children (hoistZodSchema (exampleEnv mixedBindings) mixedProgram)))) = 1"
proof -
  have h1: "ntype_of mixedProgram = Program" by code_simp
  have h2: "isAcceptedCandidate (exampleEnv mixedBindings) mixedProgram [1, 1, 0, 0]"
    by code_simp
  have h3: "isAcceptedCandidate (exampleEnv mixedBindings) mixedProgram [2, 1, 0, 0]"
    by code_simp
  have h4: "canonicalForm (exampleEnv mixedBindings) mixedProgram [1, 1, 0, 0]
      = canonicalForm (exampleEnv mixedBindings) mixedProgram [2, 1, 0, 0]"
    by code_simp
  have k: "length (schemasToHoist (traverseProgram (exampleEnv mixedBindings) mixedProgram)) = 1"
    by code_simp
  have s1: "shiftPath 1 [1, 1, 0, 0] = [2, 1, 0, 0]" by simp
  have s2: "shiftPath 1 [2, 1, 0, 0] = [3, 1, 0, 0]" by simp
  show ?thesis
    using identical_candidates_share_declaration [OF h1 exampleEnv_fresh h2 h3 h4]
    unfolding k s1 s2 .
qed

text \<open>
  Claim C3. The body of the output is the queued declarations, followed by the statements
  of the input in their order; the canonical forms of the declarations are the distinct
  canonical forms of the accepted candidates in the order in which the pre-order traversal
  first meets them; every statement of the input is kept in place with its accepted
  candidates replaced by references, so a statement without accepted candidate is
  unchanged.
\<close>

theorem declarations_first_in_discovery_order:
  assumes "ntype_of t = Program"
  shows "children (hoistZodSchema e t)
           = map variableDeclaration (schemasToHoist (traverseProgram e t))
             @ children (prog (traverseProgram e t))
       \<and> map (\<lambda>d. generate e (snd d)) (schemasToHoist (traverseProgram e t))
           = firstOccurrences
               (map (canonicalForm e t) (filter (isAcceptedCandidate e t) (subpaths t)))
       \<and> length (children (prog (traverseProgram e t))) = length (children t)
       \<and> (\<forall>i<length (children t).
             children (prog (traverseProgram e t)) ! i
               = withReferences (referenceOf e t (hoistedSchemas (traverseProgram e t))) [i]
                   (children t ! i)
             \<and> ((\<forall>q. \<not> isAcceptedCandidate e t (i # q))
                  \<longrightarrow> children (prog (traverseProgram e t)) ! i = children t ! i))"
proof (intro conjI allI impI)
  let ?st = "traverseProgram e t"
  let ?r = "referenceOf e t (hoistedSchemas ?st)"
  show "children (hoistZodSchema e t)
      = map variableDeclaration (schemasToHoist ?st) @ children (prog ?st)"
    by (simp add: output_shape [OF assms])
  have "map fst (hoistedSchemas ?st) = map (\<lambda>d. generate e (snd d)) (schemasToHoist ?st)"
    by (subst invariant_map [OF invariant_final]) (simp add: comp_def)
  then show "map (\<lambda>d. generate e (snd d)) (schemasToHoist ?st)
      = firstOccurrences (map (canonicalForm e t) (filter (isAcceptedCandidate e t) (subpaths t)))"
    using invariant_order [OF invariant_final, of e t] by simp
  show "length (children (prog ?st)) = length (children t)"
    by (simp add: final_root(2) [OF assms])
  fix i assume i: "i < length (children t)"
  show nth: "children (prog ?st) ! i = withReferences ?r [i] (children t ! i)"
    using i by (simp add: final_root(2) [OF assms] withReferencesList_nth)
  assume "\<forall>q. \<not> isAcceptedCandidate e t (i # q)"
  then have "\<forall>q. ?r ([i] @ q) = None" by (simp add: referenceOf_def)
  then have "withReferences ?r [i] (children t ! i) = children t ! i"
    by (rule withReferences_id(1))
  with nth show "children (prog ?st) ! i = children t ! i" by simp
qed

theorem declarations_first_in_discovery_order_witness:
  "length (children (hoistZodSchema (exampleEnv mixedBindings) mixedProgram)) = 4
   \<and> map (\<lambda>d. generate (exampleEnv mixedBindings) (snd d))
        (schemasToHoist (traverseProgram (exampleEnv mixedBindings) mixedProgram))
      = [printNode (zodCall ''string'' [])]
   \<and> children (hoistZodSchema (exampleEnv mixedBindings) mixedProgram) ! 1
      = children mixedProgram ! 0"
proof -
  let ?e = "exampleEnv mixedBindings"
  have h1: "ntype_of mixedProgram = Program" by code_simp
  have k: "length (schemasToHoist (traverseProgram ?e mixedProgram)) = 1" by code_simp
  have n: "length (children mixedProgram) = 3" by code_simp
  have f: "firstOccurrences (map (canonicalForm ?e mixedProgram)
      (filter (isAcceptedCandidate ?e mixedProgram) (subpaths mixedProgram)))
      = [printNode (zodCall ''string'' [])]" by code_simp
  have fin: "\<forall>p\<in>set (subpaths mixedProgram).
      \<not> (isAcceptedCandidate ?e mixedProgram p \<and> take 1 p = [0])" by code_simp
  have none: "\<forall>q. \<not> isAcceptedCandidate ?e mixedProgram (0 # q)"
  proof (intro allI notI)
    fix q assume a: "isAcceptedCandidate ?e mixedProgram (0 # q)"
    then have "0 # q \<in> set (subpaths mixedProgram)"
      by (auto simp: set_subpaths dest!: accepted_call simp: isCallExpression_def type_at_def)
    with fin a show False by auto
  qed
  note c = declarations_first_in_discovery_order [OF h1, of ?e]
  have "0 < length (children mixedProgram)" using n by simp
  from c [THEN conjunct2, THEN conjunct2, THEN conjunct2, rule_format, OF this] none
  have body: "children (prog (traverseProgram ?e mixedProgram)) ! 0 = children mixedProgram ! 0"
    by blast
  have "children (hoistZodSchema ?e mixedProgram) ! 1
      = children (prog (traverseProgram ?e mixedProgram)) ! 0"
    using c k by (simp add: nth_append)
  moreover have "length (children (hoistZodSchema ?e mixedProgram)) = 4"
    using c k n by simp
  ultimately show ?thesis using c f body by simp
qed

text \<open>
  Claim C4. Run the pass on the output of the pass, with scope information that agrees
  with that of the first run. Then the second traversal queues no declaration and leaves
  the program as it is, and the output of the second pass is the output of the first.
\<close>

theorem second_pass_changes_nothing:
  assumes "ntype_of t = Program"
    and "scopesAgree e t e' (hoistZodSchema e t)
        (length (schemasToHoist (traverseProgram e t)))"
  shows "schemasToHoist (traverseProgram e' (hoistZodSchema e t)) = []
       \<and> prog (traverseProgram e' (hoistZodSchema e t)) = hoistZodSchema e t
       \<and> hoistZodSchema e' (hoistZodSchema e t) = hoistZodSchema e t"
proof -
  let ?out = "hoistZodSchema e t"
  let ?k = "length (schemasToHoist (traverseProgram e t))"
  have none: "\<forall>p. \<not> isAcceptedCandidate e' ?out p"
  proof
    fix p
    show "\<not> isAcceptedCandidate e' ?out p"
    proof (cases p)
      case Nil
      then show ?thesis
        by (simp add: isAcceptedCandidate_def isCallExpression_def type_at_def
            output_shape [OF assms(1)])
    next
      case (Cons j r)
      show ?thesis
      proof (cases "j < ?k")
        case True
        then show ?thesis unfolding Cons by (rule declaration_no_candidate [OF assms(1)])
      next
        case False
        then have "p = shiftPath ?k ((j - ?k) # r)" using Cons by simp
        moreover have "\<not> isAcceptedCandidate e' ?out (shiftPath ?k ((j - ?k) # r))"
          by (rule body_no_candidate [OF assms]) simp
        ultimately show ?thesis by simp
      qed
    qed
  qed
  have q: "schemasToHoist (traverseProgram e' ?out) = []"
    and h: "hoistZodSchema e' ?out = ?out"
    using no_candidates_fixpoint [OF none] by simp_all
  have "withReferences (referenceOf e' ?out (hoistedSchemas (traverseProgram e' ?out))) [] ?out
      = ?out"
    by (rule withReferences_id(1)) (simp add: referenceOf_def none)
  then have "prog (traverseProgram e' ?out) = ?out" by (simp add: final_prog)
  with q h show ?thesis by simp
qed

theorem second_pass_changes_nothing_witness:
  "hoistZodSchema (exampleEnv mixedBindings) mixedProgram \<noteq> mixedProgram
   \<and> schemasToHoist (traverseProgram (exampleEnv mixedBindingsAfter)
        (hoistZodSchema (exampleEnv mixedBindings) mixedProgram)) = []
   \<and> hoistZodSchema (exampleEnv mixedBindingsAfter)
        (hoistZodSchema (exampleEnv mixedBindings) mixedProgram)
      = hoistZodSchema (exampleEnv mixedBindings) mixedProgram"
proof -
  let ?e = "exampleEnv mixedBindings"
  let ?e' = "exampleEnv mixedBindingsAfter"
  have h1: "ntype_of mixedProgram = Program" by code_simp
  have k: "length (schemasToHoist (traverseProgram ?e mixedProgram)) = 1" by code_simp
  have changed: "hoistZodSchema ?e mixedProgram \<noteq> mixedProgram" by code_simp
  have names: "\<forall>p\<in>set (subpaths mixedProgram).
      type_at mixedProgram p \<noteq> Some (Identifier ''_schema_call(mem'')" by code_simp
  have h2: "scopesAgree ?e mixedProgram ?e' (hoistZodSchema ?e mixedProgram)
      (length (schemasToHoist (traverseProgram ?e mixedProgram)))"
    unfolding k scopesAgree_def
  proof (intro allI impI)
    fix p name
    assume a: "p \<noteq> [] \<and> node_at mixedProgram p \<noteq> None
        \<and> node_at (hoistZodSchema ?e mixedProgram) (shiftPath 1 p) = node_at mixedProgram p
        \<and> (name = ''z'' \<or> type_at mixedProgram p = Some (Identifier name))"
    then have "p \<in> set (subpaths mixedProgram)" by (simp add: set_subpaths)
    with names a have n: "name \<noteq> ''_schema_call(mem''" by auto
    from a obtain i r where p: "p = i # r" by (cases p) auto
    show "getBinding ?e' (shiftPath 1 p) name
        = map_option (shiftBinding 1) (getBinding ?e p name)"
      using n by (simp add: exampleEnv_def mixedBindings_def mixedBindingsAfter_def
          shiftBinding_def p)
  qed
  show ?thesis using second_pass_changes_nothing [OF h1 h2] changed by simp
qed

text \<open>
  Claim C5. Take a call site where the binding of \<^verbatim>\<open>z\<close> belongs to a scope other than
  the program scope. In the output that site does not hold a reference to a hoisted
  declaration, and in no state does the visitor, entering a call whose outermost call is
  that site, replace anything or queue a declaration.
\<close>

theorem shadowed_call_not_hoisted:
  assumes "ntype_of t = Program" and "isCallExpression t p"
    and "getBinding e p ''z'' = Some b" and "b_scope b \<noteq> []"
  shows "(\<forall>x. node_at (hoistZodSchema e t)
                 (shiftPath (length (schemasToHoist (traverseProgram e t))) p)
               \<noteq> Some (t_identifier x))
       \<and> (\<forall>st c. getOutermostCall (prog st) c = p
             \<longrightarrow> nothingHoisted st (callExpressionVisitor e c st))"
proof (intro conjI allI impI)
  fix x
  have "\<not> isGlobalZodReference e t p"
    using assms(3,4) by (simp add: isGlobalZodReference_def split: option.splits)
  then have "\<not> isAcceptedCandidate e t p" by (simp add: isAcceptedCandidate_def)
  then have "node_at (prog (traverseProgram e t)) p \<noteq> Some (t_identifier x)"
    using assms(2) by (intro final_not_reference)
  moreover have "p \<noteq> []" using assms(1,2) by (rule call_not_root)
  ultimately show "node_at (hoistZodSchema e t)
      (shiftPath (length (schemasToHoist (traverseProgram e t))) p) \<noteq> Some (t_identifier x)"
    using output_node_at [OF assms(1), of p e] by simp
next
  fix st :: pstate and c assume o: "getOutermostCall (prog st) c = p"
  show "nothingHoisted st (callExpressionVisitor e c st)"
  proof (rule ccontr)
    assume "\<not> nothingHoisted st (callExpressionVisitor e c st)"
    then have "isGlobalZodReference e (prog st) p"
      using visitor_filters [of st e c] o by simp
    with assms(3,4) show False
      by (simp add: isGlobalZodReference_def split: option.splits if_splits)
  qed
qed

theorem shadowed_call_not_hoisted_witness:
  "(\<forall>x. node_at (hoistZodSchema (exampleEnv shadowBindings) shadowProgram) [0, 2, 0, 0]
          \<noteq> Some (t_identifier x))
   \<and> nothingHoisted (initialState shadowProgram)
        (callExpressionVisitor (exampleEnv shadowBindings) [0, 2, 0, 0]
           (initialState shadowProgram))"
proof -
  let ?b = "\<lparr>b_scope = [0], b_path = [0, 1], b_type = Identifier ''z''\<rparr>"
  have h1: "ntype_of shadowProgram = Program" by code_simp
  have h2: "isCallExpression shadowProgram [0, 2, 0, 0]" by code_simp
  have h3: "getBinding (exampleEnv shadowBindings) [0, 2, 0, 0] ''z'' = Some ?b"
    by (simp add: exampleEnv_def shadowBindings_def)
  have h4: "b_scope ?b \<noteq> []" by simp
  have k: "length (schemasToHoist (traverseProgram (exampleEnv shadowBindings) shadowProgram)) = 0"
    by code_simp
  have o: "getOutermostCall (prog (initialState shadowProgram)) [0, 2, 0, 0] = [0, 2, 0, 0]"
    by code_simp
  note c = shadowed_call_not_hoisted [OF h1 h2 h3 h4]
  from c have "\<forall>x. node_at (hoistZodSchema (exampleEnv shadowBindings) shadowProgram)
      [0, 2, 0, 0] \<noteq> Some (t_identifier x)"
    unfolding k by simp
  moreover from c o have "nothingHoisted (initialState shadowProgram)
      (callExpressionVisitor (exampleEnv shadowBindings) [0, 2, 0, 0]
         (initialState shadowProgram))" by blast
  ultimately show ?thesis by blast
qed

text \<open>
  Claim C8. A call rooted at \<^verbatim>\<open>z\<close> that is not nested in another such call and that the
  safety analysis rejects is found unchanged in the output, at its place behind the
  inserted declarations.
\<close>

theorem rejected_candidate_unchanged:
  assumes "ntype_of t = Program"
    and "isCallExpression t p" and "isZodCallAt t p" and "\<not> isNestedInZodCall t p"
    and "\<not> canSafelyHoist e t p"
  shows "node_at (hoistZodSchema e t)
           (shiftPath (length (schemasToHoist (traverseProgram e t))) p)
       = node_at t p"
proof -
  have "\<not> isAcceptedCandidate e t p" using assms(5) by (simp add: isAcceptedCandidate_def)
  then have "node_at (prog (traverseProgram e t)) p = node_at t p"
    using assms(2-4) by (intro zod_call_frame)
  moreover have "p \<noteq> []" using assms(1,2) by (rule call_not_root)
  ultimately show ?thesis using output_node_at [OF assms(1), of p e] by simp
qed

theorem rejected_candidate_unchanged_witness:
  "schemasToHoist (traverseProgram (exampleEnv mixedBindings) mixedProgram) \<noteq> []
   \<and> node_at (hoistZodSchema (exampleEnv mixedBindings) mixedProgram) [1, 2, 0, 0]
       = node_at mixedProgram [0, 2, 0, 0]"
proof -
  have h1: "ntype_of mixedProgram = Program" by code_simp
  have h2: "isCallExpression mixedProgram [0, 2, 0, 0]" by code_simp
  have h3: "isZodCallAt mixedProgram [0, 2, 0, 0]" by code_simp
  have h4: "\<not> isNestedInZodCall mixedProgram [0, 2, 0, 0]" by code_simp
  have h5: "\<not> canSafelyHoist (exampleEnv mixedBindings) mixedProgram [0, 2, 0, 0]"
    by code_simp
  have k: "length (schemasToHoist (traverseProgram (exampleEnv mixedBindings) mixedProgram)) = 1"
    by code_simp
  show ?thesis using rejected_candidate_unchanged [OF h1 h2 h3 h4 h5] k by auto
qed

text \<open>
  Claim C9. A call of a chain rooted at \<^verbatim>\<open>z\<close> whose outermost call has no enclosing
  function is found unchanged in the output, and in no state does the visitor, entering
  such a call, replace anything or queue a declaration.
\<close>

theorem top_level_chain_unchanged:
  assumes "ntype_of t = Program"
    and "isCallExpression t c" and "isZodCallAt t c"
    and "getFunctionParent t (getOutermostCall t c) = None"
  shows "node_at (hoistZodSchema e t)
           (shiftPath (length (schemasToHoist (traverseProgram e t))) c)
         = node_at t c
       \<and> (\<forall>st. getFunctionParent (prog st) (getOutermostCall (prog st) c) = None
             \<longrightarrow> nothingHoisted st (callExpressionVisitor e c st))"
proof
  have top: "getFunctionParent t c = None"
    using getOutermostCall_function [OF assms(2)] assms(4) by simp
  have "node_at (prog (traverseProgram e t)) c = node_at t c"
  proof (rule final_frame, intro allI impI conjI notI)
    fix a assume a: "isAcceptedCandidate e t a"
    {
      assume "prefix a c"
      from a have "getFunctionParent t a \<noteq> None" by (simp add: isAcceptedCandidate_def)
      then obtain f where "strict_prefix f a" "isFunction t f"
        unfolding getFunctionParent_iff by blast
      with \<open>prefix a c\<close> have "strict_prefix f c \<and> isFunction t f"
        by (auto intro: prefix_order.less_le_trans)
      then have "getFunctionParent t c \<noteq> None" unfolding getFunctionParent_iff by blast
      with top show False by simp
    }
    {
      assume "prefix c a"
      moreover have "c \<noteq> a"
      proof
        assume "c = a"
        with a have "getFunctionParent t c \<noteq> None" by (simp add: isAcceptedCandidate_def)
        with top show False by simp
      qed
      ultimately have "strict_prefix c a" by (simp add: strict_prefix_def)
      from accepted_below_zod [OF assms(2,3) this] a show False by simp
    }
  qed
  moreover have "c \<noteq> []" using assms(1,2) by (rule call_not_root)
  ultimately show "node_at (hoistZodSchema e t)
           (shiftPath (length (schemasToHoist (traverseProgram e t))) c) = node_at t c"
    using output_node_at [OF assms(1), of c e] by simp
  show "\<forall>st. getFunctionParent (prog st) (getOutermostCall (prog st) c) = None
             \<longrightarrow> nothingHoisted st (callExpressionVisitor e c st)"
    using visitor_filters [of _ e c] by blast
qed

theorem top_level_chain_unchanged_witness:
  "node_at (hoistZodSchema (exampleEnv topLevelBindings) topLevelProgram) [1, 0, 1]
     = node_at topLevelProgram [0, 0, 1]
   \<and> nothingHoisted (initialState topLevelProgram)
        (callExpressionVisitor (exampleEnv topLevelBindings) [0, 0, 1]
           (initialState topLevelProgram))"
proof -
  have h1: "ntype_of topLevelProgram = Program" by code_simp
  have h2: "isCallExpression topLevelProgram [0, 0, 1]" by code_simp
  have h3: "isZodCallAt topLevelProgram [0, 0, 1]" by code_simp
  have h4: "getFunctionParent topLevelProgram (getOutermostCall topLevelProgram [0, 0, 1]) = None"
    by code_simp
  have h5: "getFunctionParent (prog (initialState topLevelProgram))
      (getOutermostCall (prog (initialState topLevelProgram)) [0, 0, 1]) = None"
    by code_simp
  have k: "length (schemasToHoist (traverseProgram (exampleEnv topLevelBindings) topLevelProgram)) = 1"
    by code_simp
  note c = top_level_chain_unchanged [OF h1 h2 h3 h4, of "exampleEnv topLevelBindings"]
  from c have "node_at (hoistZodSchema (exampleEnv topLevelBindings) topLevelProgram) [1, 0, 1]
      = node_at topLevelProgram [0, 0, 1]" unfolding k by simp
  moreover from c h5 have "nothingHoisted (initialState topLevelProgram)
      (callExpressionVisitor (exampleEnv topLevelBindings) [0, 0, 1]
         (initialState topLevelProgram))" by blast
  ultimately show ?thesis by blast
qed

end
